theory Spec2Isabelle
  imports Main "HOL-Library.Sublist"
begin


section \<open>Python string primitives\<close>

text \<open>
  Python strings are modelled as \<^typ>\<open>string\<close>, one \<^typ>\<open>char\<close> per code point.
  The character classes below are those of Python on the ASCII range
  (\<open>str.isspace\<close>, the regular-expression classes \<open>\s\<close> and \<open>\w\<close>, \<open>str.lower\<close>);
  a character outside ASCII is treated as an ordinary symbol: neither white space nor
  a word character, and unchanged by \<open>lower\<close>.
\<close>

abbreviation NL :: char where "NL \<equiv> CHR 0x0A"
abbreviation CR :: char where "CR \<equiv> CHR 0x0D"
abbreviation BSL :: char where "BSL \<equiv> CHR 0x5C"

definition is_space :: "char \<Rightarrow> bool" where
  "is_space c \<longleftrightarrow> c \<in> set [CHR 0x09, CHR 0x0A, CHR 0x0B, CHR 0x0C, CHR 0x0D,
                           CHR 0x1C, CHR 0x1D, CHR 0x1E, CHR 0x1F, CHR 0x20]"

definition is_alnum :: "char \<Rightarrow> bool" where
  "is_alnum c \<longleftrightarrow> (let n = (of_char c :: nat) in
     (48 \<le> n \<and> n \<le> 57) \<or> (65 \<le> n \<and> n \<le> 90) \<or> (97 \<le> n \<and> n \<le> 122))"

definition is_word_char :: "char \<Rightarrow> bool" where
  "is_word_char c \<longleftrightarrow> is_alnum c \<or> c = CHR ''_''"

definition lower_char :: "char \<Rightarrow> char" where
  "lower_char c = (let n = (of_char c :: nat) in
     if 65 \<le> n \<and> n \<le> 90 then char_of (n + 32) else c)"

definition lower :: "string \<Rightarrow> string" where
  "lower s = map lower_char s"

definition lstrip :: "string \<Rightarrow> string" where
  "lstrip s = dropWhile is_space s"

definition rstrip :: "string \<Rightarrow> string" where
  "rstrip s = rev (dropWhile is_space (rev s))"

definition strip :: "string \<Rightarrow> string" where
  "strip s = rstrip (lstrip s)"

text \<open>\<open>sub in s\<close>: the substring test.\<close>

fun contains :: "string \<Rightarrow> string \<Rightarrow> bool" where
  "contains sub [] = (sub = [])"
| "contains sub (c # cs) = (prefix sub (c # cs) \<or> contains sub cs)"

text \<open>
  \<open>s.replace(old, new)\<close> for a non-empty \<open>old\<close>: the occurrences are replaced from left
  to right, without overlap. (The source never replaces the empty string; the model
  leaves \<open>s\<close> unchanged there.)
\<close>

function replace :: "string \<Rightarrow> string \<Rightarrow> string \<Rightarrow> string" where
  "replace old new s =
     (if old = [] \<or> s = [] then s
      else if prefix old s then new @ replace old new (drop (length old) s)
      else hd s # replace old new (tl s))"
  by pat_completeness auto
termination
  by (relation "measure (\<lambda>(old, new, s). length s)") auto

declare replace.simps [simp del]

text \<open>\<open>s.split(sep)\<close> for a separator of one character: never the empty list.\<close>

fun split_on :: "char \<Rightarrow> string \<Rightarrow> string list" where
  "split_on sep [] = [[]]"
| "split_on sep (c # cs) =
     (if c = sep then [] # split_on sep cs
      else (case split_on sep cs of [] \<Rightarrow> [[c]] | l # ls \<Rightarrow> (c # l) # ls))"

text \<open>\<open>sep.join(xs)\<close>.\<close>

fun join :: "string \<Rightarrow> string list \<Rightarrow> string" where
  "join sep [] = []"
| "join sep [x] = x"
| "join sep (x # y # ys) = x @ sep @ join sep (y # ys)"

text \<open>The slice \<open>xs[i:j]\<close> for \<open>0 \<le> i \<le> j\<close>; a slice beyond the end is cut, never an error.\<close>

definition slice :: "'a list \<Rightarrow> nat \<Rightarrow> nat \<Rightarrow> 'a list" where
  "slice xs i j = take (j - i) (drop i xs)"

section \<open>The text normalizer: \<open>_clean_section_content\<close>\<close>

text \<open>The test of the \<open>while\<close> loop on the first non-blank line (already lower-cased).\<close>

definition is_meta_line :: "string \<Rightarrow> string \<Rightarrow> string \<Rightarrow> bool" where
  "is_meta_line doc_title_low heading_low f_low \<longleftrightarrow>
     (let is_doc_title = (f_low = doc_title_low);
          is_page_section = (prefix ''page '' f_low \<and> contains ''section'' f_low);
          is_section_prefix = prefix ''section '' f_low;
          is_heading_exact = (f_low = heading_low);
          is_heading_with_colon = (heading_low \<noteq> [] \<and> prefix (heading_low @ '':'') f_low)
      in is_doc_title \<or> is_page_section \<or> is_section_prefix \<or> is_heading_exact
         \<or> is_heading_with_colon)"

text \<open>
  The \<open>while lines:\<close> loop that strips meta lines at the top. Each round pops the first
  line or leaves the loop, so the loop is a recursion on the list of lines.
\<close>

fun strip_meta_lines :: "string \<Rightarrow> string \<Rightarrow> string list \<Rightarrow> string list" where
  "strip_meta_lines doc_title_low heading_low [] = []"
| "strip_meta_lines doc_title_low heading_low (l # ls) =
     (let first = strip l in
      if first = [] then strip_meta_lines doc_title_low heading_low ls
      else if is_meta_line doc_title_low heading_low (lower first) then
        (if length (l # ls) > 1 \<and> (\<exists>x \<in> set ls. strip x \<noteq> [])
         then strip_meta_lines doc_title_low heading_low ls
         else l # ls)
      else l # ls)"

text \<open>The \<open>for line in lines\<close> loop that collapses runs of blank lines; \<open>cleaned\<close> is its accumulator.\<close>

fun collapse_blank :: "string list \<Rightarrow> string list \<Rightarrow> string list" where
  "collapse_blank cleaned [] = cleaned"
| "collapse_blank cleaned (line # rest) =
     (if line = [] then
        (if cleaned \<noteq> [] \<and> last cleaned = [] then collapse_blank cleaned rest
         else collapse_blank (cleaned @ [[]]) rest)
      else collapse_blank (cleaned @ [line]) rest)"

definition trim_blank :: "string list \<Rightarrow> string list" where
  "trim_blank cleaned =
     rev (dropWhile (\<lambda>l. l = []) (rev (dropWhile (\<lambda>l. l = []) cleaned)))"

definition normalise_newlines :: "string \<Rightarrow> string" where
  "normalise_newlines raw =
     replace [BSL, CHR ''n''] [NL] (replace [CR] [NL] (replace [CR, NL] [NL] raw))"

definition clean_section_content :: "string \<Rightarrow> string \<Rightarrow> string \<Rightarrow> string" where
  "clean_section_content doc_title heading raw =
     (if raw = [] then []
      else
        let text = normalise_newlines raw;
            lines = map strip (split_on NL text);
            doc_title_low = lower (strip doc_title);
            heading_low = lower (strip heading);
            lines = strip_meta_lines doc_title_low heading_low lines;
            cleaned = trim_blank (collapse_blank [] lines)
        in strip (join [NL] cleaned))"

section \<open>The section splitter: \<open>split_section_into_parts\<close>\<close>

text \<open>
  A section is the dictionary \<open>{"heading": ..., "content": ...}\<close>; a missing or \<open>None\<close>
  entry reads as the empty string (\<open>section.get(key, "") or ""\<close>). The functions below
  read no other key.
\<close>

record doc_section =
  heading :: string
  content :: string

datatype py_error = IndexError | ZeroDivisionError | TypeError | RuntimeError

text \<open>
  \<open>re.split(r'(?<=[.!?])\s+', text)\<close>: the text is cut at every maximal run of white space
  that follows one of \<open>.\<close>, \<open>!\<close>, \<open>?\<close>. The flag says whether the character before the
  current position is such a mark.
\<close>

definition is_sentence_end :: "char \<Rightarrow> bool" where
  "is_sentence_end c \<longleftrightarrow> c = CHR ''.'' \<or> c = CHR ''!'' \<or> c = CHR ''?''"

function split_sentences_from :: "bool \<Rightarrow> string \<Rightarrow> string list" where
  "split_sentences_from after_mark [] = [[]]"
| "split_sentences_from after_mark (c # cs) =
     (if after_mark \<and> is_space c
      then [] # split_sentences_from False (dropWhile is_space cs)
      else (case split_sentences_from (is_sentence_end c) cs of
              [] \<Rightarrow> [[c]]
            | x # xs \<Rightarrow> (c # x) # xs))"
  by pat_completeness auto
termination
  by (relation "measure (\<lambda>(b, s). length s)") (auto simp: less_Suc_eq_le length_dropWhile_le)

definition split_sentences :: "string \<Rightarrow> string list" where
  "split_sentences text = split_sentences_from False text"

definition part_heading :: "string \<Rightarrow> nat \<Rightarrow> string" where
  "part_heading h i = (if i = 0 then h else h @ '' (cont.)'')"

text \<open>
  The two \<open>for i in range(parts)\<close> loops; the state is the output list and the read
  position (\<open>idx\<close>, \<open>ptr\<close>).
\<close>

definition sentence_step ::
  "string \<Rightarrow> string list \<Rightarrow> nat \<Rightarrow> doc_section list \<times> nat \<Rightarrow> nat \<Rightarrow> doc_section list \<times> nat" where
  "sentence_step h sentences chunk_size st i =
     (case st of (out, idx) \<Rightarrow>
        let chunk = slice sentences idx (idx + chunk_size)
        in (out @ [\<lparr>heading = part_heading h i, content = strip (join '' '' chunk)\<rparr>],
            idx + chunk_size))"

definition paragraph_step ::
  "string \<Rightarrow> string list \<Rightarrow> nat \<Rightarrow> nat \<Rightarrow> doc_section list \<times> nat \<Rightarrow> nat \<Rightarrow> doc_section list \<times> nat" where
  "paragraph_step h paragraphs base rem st i =
     (case st of (out, ptr) \<Rightarrow>
        let take_n = base + (if i < rem then 1 else 0);
            chunk_paras = slice paragraphs ptr (ptr + take_n)
        in (out @ [\<lparr>heading = part_heading h i, content = strip (join [NL] chunk_paras)\<rparr>],
            ptr + take_n))"

definition section_paragraphs :: "doc_section \<Rightarrow> string list" where
  "section_paragraphs sec =
     (let content = clean_section_content [] (heading sec) (content sec)
      in map strip (filter (\<lambda>p. strip p \<noteq> []) (split_on NL content)))"

text \<open>
  The sentence-level branch, taken when there are fewer paragraphs than parts: the
  sentences of the joined text, the loop over the parts, and the leftover sentences
  appended to the last part (\<open>out[-1]\<close>).
\<close>

definition paragraph_sentences :: "string list \<Rightarrow> string list" where
  "paragraph_sentences paragraphs =
     (let text = join [NL] paragraphs;
          sentences = split_sentences text
      in if sentences = [] then [text] else sentences)"

definition sentence_chunks :: "string \<Rightarrow> string list \<Rightarrow> nat \<Rightarrow> doc_section list \<times> nat" where
  "sentence_chunks h sentences parts =
     (let chunk_size = max 1 (length sentences div parts)
      in foldl (sentence_step h sentences chunk_size) ([], 0) [0..<parts])"

definition append_leftover :: "doc_section list \<Rightarrow> string list \<Rightarrow> py_error + doc_section list" where
  "append_leftover out leftover =
     (if leftover \<noteq> [] then
        (if out = [] then Inl IndexError
         else Inr (butlast out @
            [(last out)\<lparr>content :=
                strip (content (last out) @ '' '' @ join '' '' leftover)\<rparr>]))
      else Inr out)"

definition split_by_sentences :: "string \<Rightarrow> string list \<Rightarrow> nat \<Rightarrow> py_error + doc_section list" where
  "split_by_sentences h paragraphs parts =
     (let sentences = paragraph_sentences paragraphs;
          st = sentence_chunks h sentences parts
      in append_leftover (fst st) (drop (snd st) sentences))"

text \<open>The paragraph branch; \<open>parts = 0\<close> divides by zero.\<close>

definition split_by_paragraphs :: "string \<Rightarrow> string list \<Rightarrow> nat \<Rightarrow> py_error + doc_section list" where
  "split_by_paragraphs h paragraphs parts =
     (if parts = 0 then Inl ZeroDivisionError
      else
        let base = length paragraphs div parts;
            rem = length paragraphs mod parts;
            st = foldl (paragraph_step h paragraphs base rem) ([], 0) [0..<parts]
        in Inr (fst st))"

definition split_section_into_parts :: "doc_section \<Rightarrow> nat \<Rightarrow> py_error + doc_section list" where
  "split_section_into_parts sec parts =
     (let h = heading sec;
          paragraphs = section_paragraphs sec
      in if paragraphs = [] then Inr (map (\<lambda>_. \<lparr>heading = h, content = []\<rparr>) [0..<parts])
      else if length paragraphs < parts then split_by_sentences h paragraphs parts
      else split_by_paragraphs h paragraphs parts)"

section \<open>The page distributor: \<open>distribute_sections_across_pages\<close>\<close>

text \<open>\<open>re.findall(r"\w+", s)\<close>: the maximal runs of word characters.\<close>

function findall_words :: "string \<Rightarrow> string list" where
  "findall_words [] = []"
| "findall_words (c # cs) =
     (if is_word_char c
      then takeWhile is_word_char (c # cs) # findall_words (dropWhile is_word_char cs)
      else findall_words cs)"
  by pat_completeness auto
termination
  by (relation "measure length") (auto simp: less_Suc_eq_le length_dropWhile_le)

definition word_count :: "doc_section \<Rightarrow> nat" where
  "word_count s = length (findall_words (content s))"

text \<open>
  A page mapping is a dictionary from page numbers to lists of sections. Page numbers
  are positive, so the keys are naturals; \<open>num_pages\<close> itself is any integer.
\<close>

type_synonym pages = "nat \<rightharpoonup> doc_section list"

definition empty_pages :: "nat \<Rightarrow> pages" where
  "empty_pages n = (\<lambda>p. if 1 \<le> p \<and> p \<le> n then Some [] else None)"

text \<open>Case A, the loop \<open>for p in range(1, num_pages + 1)\<close> with the state \<open>(pages, idx)\<close>.\<close>

definition balanced_step ::
  "doc_section list \<Rightarrow> nat \<Rightarrow> nat \<Rightarrow> pages \<times> nat \<Rightarrow> nat \<Rightarrow> pages \<times> nat" where
  "balanced_step sections base rem st p =
     (case st of (pages, idx) \<Rightarrow>
        let take_n = base + (if p \<le> rem then 1 else 0)
        in (pages(p \<mapsto> slice sections idx (idx + take_n)), idx + take_n))"

text \<open>
  \<open>sorted(sections, key=word_count, reverse=True)\<close>: descending by word count; sections
  of equal count keep their input order, as Python's sort is stable under \<open>reverse\<close>.
\<close>

definition sort_by_words_desc :: "doc_section list \<Rightarrow> doc_section list" where
  "sort_by_words_desc sections = sort_key (\<lambda>s. - int (word_count s)) sections"

text \<open>The seeding loop \<open>for i, sec in enumerate(sections_sorted)\<close>.\<close>

definition seed_step :: "nat \<Rightarrow> doc_section list list \<Rightarrow> nat \<times> doc_section \<Rightarrow> doc_section list list" where
  "seed_step num_pages pages_list isec =
     (case isec of (i, sec) \<Rightarrow>
        if i < num_pages then pages_list[i := pages_list ! i @ [sec]]
        else pages_list[0 := pages_list ! 0 @ [sec]])"

text \<open>The search for the page of greatest total word count: the first strict maximum above 0.\<close>

definition longest_step ::
  "nat option \<times> nat \<Rightarrow> nat \<times> doc_section list \<Rightarrow> nat option \<times> nat" where
  "longest_step st ipage =
     (case st of (longest_page_idx, longest_wc) \<Rightarrow>
      case ipage of (i, page) \<Rightarrow>
        if page = [] then (longest_page_idx, longest_wc)
        else let wc = sum_list (map word_count page)
             in if wc > longest_wc then (Some i, wc) else (longest_page_idx, longest_wc))"

definition longest_page :: "doc_section list list \<Rightarrow> nat option" where
  "longest_page pages_list = fst (foldl longest_step (None, 0) (enumerate 0 pages_list))"

definition next_empty_page :: "doc_section list list \<Rightarrow> nat option" where
  "next_empty_page pages_list =
     map_option fst (find (\<lambda>(j, pg). pg = []) (enumerate 0 pages_list))"

text \<open>
  The loop \<open>while empty_slots > 0\<close>. Every round that does not leave the loop decrements
  \<open>empty_slots\<close>, so the loop is a recursion on that counter.
\<close>

fun fill_empty_pages :: "nat \<Rightarrow> doc_section list list \<Rightarrow> py_error + doc_section list list" where
  "fill_empty_pages 0 pages_list = Inr pages_list"
| "fill_empty_pages (Suc empty_slots) pages_list =
     (case longest_page pages_list of
        None \<Rightarrow> Inr pages_list
      | Some longest_page_idx \<Rightarrow>
         (case pages_list ! longest_page_idx of
            [] \<Rightarrow> Inl IndexError
          | sec_to_split # rest \<Rightarrow>
             (case split_section_into_parts sec_to_split 2 of
                Inl e \<Rightarrow> Inl e
              | Inr parts \<Rightarrow>
                 (case parts of
                    [] \<Rightarrow> Inl IndexError
                  | part0 # others \<Rightarrow>
                     (let pages_list = pages_list[longest_page_idx := rest @ [part0]]
                      in case next_empty_page pages_list of
                           None \<Rightarrow> Inr pages_list
                         | Some next_empty \<Rightarrow>
                            (case others of
                               [] \<Rightarrow> Inl IndexError
                             | part1 # _ \<Rightarrow>
                                fill_empty_pages empty_slots
                                  (pages_list[next_empty := pages_list ! next_empty @ [part1]])))))))"

definition pages_of_list :: "pages \<Rightarrow> doc_section list list \<Rightarrow> pages" where
  "pages_of_list pages pages_list =
     foldl (\<lambda>pgs (idx, page). pgs(idx + 1 \<mapsto> page)) pages (enumerate 0 pages_list)"

definition distribute_sections_across_pages ::
  "doc_section list \<Rightarrow> int \<Rightarrow> py_error + pages" where
  "distribute_sections_across_pages sections num_pages_arg =
     (let num_pages = nat (if num_pages_arg \<le> 0 then 1 else num_pages_arg);
          pages = empty_pages num_pages;
          total_sections = length sections
      in if total_sections = 0 then Inr pages
      else if total_sections \<ge> num_pages then
        (let base = total_sections div num_pages;
             rem = total_sections mod num_pages
         in Inr (fst (foldl (balanced_step sections base rem) (pages, 0) [1..<num_pages + 1])))
      else
        (let sections_sorted = sort_by_words_desc sections;
             pages_list = foldl (seed_step num_pages) (replicate num_pages [])
                            (enumerate 0 sections_sorted);
             filled_pages = length (filter (\<lambda>p. p \<noteq> []) pages_list);
             empty_slots = num_pages - filled_pages
         in case fill_empty_pages empty_slots pages_list of
              Inl e \<Rightarrow> Inl e
            | Inr pages_list \<Rightarrow> Inr (pages_of_list pages pages_list)))"

section \<open>The slide normalizer in \<open>generate_content_with_gemini\<close>\<close>

text \<open>
  The value that \<open>json.loads\<close> returns. A dictionary is the list of its items, each key
  once; a float carries its \<open>repr\<close>, which is \<open>0.0\<close> or \<open>-0.0\<close> exactly for a zero.
\<close>

datatype json =
    JNull
  | JBool bool
  | JInt int
  | JFloat string
  | JStr string
  | JList "json list"
  | JDict "(string \<times> json) list"

text \<open>Python's truth value of a parsed value.\<close>

fun truthy :: "json \<Rightarrow> bool" where
  "truthy JNull = False"
| "truthy (JBool b) = b"
| "truthy (JInt i) = (i \<noteq> 0)"
| "truthy (JFloat r) = (r \<noteq> ''0.0'' \<and> r \<noteq> ''-0.0'')"
| "truthy (JStr s) = (s \<noteq> [])"
| "truthy (JList xs) = (xs \<noteq> [])"
| "truthy (JDict kvs) = (kvs \<noteq> [])"

fun is_str :: "json \<Rightarrow> bool" where
  "is_str (JStr s) = True"
| "is_str _ = False"

text \<open>\<open>d.get(key, default)\<close>; \<open>d.get(key)\<close> is \<open>dict_get d key JNull\<close>.\<close>

definition dict_get :: "(string \<times> json) list \<Rightarrow> string \<Rightarrow> json \<Rightarrow> json" where
  "dict_get d key dflt = (case map_of d key of None \<Rightarrow> dflt | Some v \<Rightarrow> v)"

text \<open>\<open>a or b\<close> on values.\<close>

definition py_or :: "json \<Rightarrow> json \<Rightarrow> json" where
  "py_or a b = (if truthy a then a else b)"

text \<open>
  A normalized slide is one of four dictionaries, told apart by \<open>"layout"\<close>. The fields
  are the values taken from the generator output, of any type; \<open>image_url\<close> is absent
  until the last pass sets it.
\<close>

datatype slide =
    TitleSlide (title: json)
  | BulletSlide (title: json) (bullets: json)
  | TwoColumnSlide (title: json) (left: json) (right: json)
  | ImageSlide (title: json) (caption: json) (image_url: "string option")

text \<open>
  One round of the loop \<open>for idx, slide in enumerate(data)\<close>: the slide appended, or
  \<open>None\<close> when the round appends nothing. The builtin \<open>str\<close> on parsed values is the
  parameter \<open>py_str\<close>.
\<close>

definition map_slide :: "(json \<Rightarrow> string) \<Rightarrow> json \<Rightarrow> slide option" where
  "map_slide py_str slide =
     (case slide of
        JDict d \<Rightarrow>
          (case map_of d ''layout'' of
             Some layout \<Rightarrow>
               if layout = JStr ''title'' then
                 Some (TitleSlide (dict_get d ''title'' (JStr [])))
               else if layout = JStr ''bullet'' then
                 Some (BulletSlide (dict_get d ''title'' (JStr []))
                         (py_or (dict_get d ''bullets'' JNull) (JList [])))
               else if layout = JStr ''two_column'' then
                 Some (TwoColumnSlide (dict_get d ''title'' (JStr []))
                         (dict_get d ''left'' (JStr [])) (dict_get d ''right'' (JStr [])))
               else if layout = JStr ''image'' then
                 Some (ImageSlide (dict_get d ''title'' (JStr []))
                         (dict_get d ''caption'' (dict_get d ''title'' (JStr []))) None)
               else None
           | None \<Rightarrow>
               (let title = dict_get d ''title'' (JStr []);
                    content = dict_get d ''content'' JNull;
                    image = dict_get d ''image'' JNull;
                    notes = dict_get d ''notes'' JNull
                in case content of
                     JList items \<Rightarrow>
                       Some (BulletSlide title
                         (JList (map (\<lambda>b. JStr (strip (py_str b)))
                                   (filter (\<lambda>b. strip (py_str b) \<noteq> []) items))))
                   | _ \<Rightarrow>
                       if truthy image then
                         Some (ImageSlide title (py_or notes (JStr (py_str image))) None)
                       else Some (TitleSlide title)))
      | _ \<Rightarrow> None)"

text \<open>The decimal numeral of a natural number, as an f-string prints it.\<close>

function str_of_nat :: "nat \<Rightarrow> string" where
  "str_of_nat n =
     (if n < 10 then [''0123456789'' ! n]
      else str_of_nat (n div 10) @ [''0123456789'' ! (n mod 10)])"
  by pat_completeness auto
termination
  by (relation "measure id") auto

declare str_of_nat.simps [simp del]

text \<open>\<open>xs[:n]\<close> for any integer \<open>n\<close>: a negative \<open>n\<close> counts from the end.\<close>

definition py_prefix :: "'a list \<Rightarrow> int \<Rightarrow> 'a list" where
  "py_prefix xs n = (if 0 \<le> n then take (nat n) xs else take (length xs - nat (- n)) xs)"

text \<open>\<open>v[:120]\<close>: strings and lists are cut, any other value raises \<open>TypeError\<close>.\<close>

fun py_slice_120 :: "json \<Rightarrow> py_error + json" where
  "py_slice_120 (JStr s) = Inr (JStr (take 120 s))"
| "py_slice_120 (JList xs) = Inr (JList (take 120 xs))"
| "py_slice_120 _ = Inl TypeError"

definition image_seed :: "string \<Rightarrow> nat \<Rightarrow> string" where
  "image_seed topic idx =
     (let seed = filter is_alnum (topic @ ''_'' @ str_of_nat idx)
      in if seed \<noteq> [] then seed else ''slide_'' @ str_of_nat idx)"

definition image_url_of :: "string \<Rightarrow> nat \<Rightarrow> string" where
  "image_url_of topic idx = ''https://picsum.photos/seed/'' @ image_seed topic idx @ ''/1200/800''"

text \<open>The last pass, \<open>for idx, s in enumerate(normalized_slides)\<close>; an exception ends it.\<close>

fun ensure_image_fields :: "string \<Rightarrow> nat \<Rightarrow> slide list \<Rightarrow> py_error + slide list" where
  "ensure_image_fields topic idx [] = Inr []"
| "ensure_image_fields topic idx (s # rest) =
     (case (case s of
              ImageSlide t c u \<Rightarrow>
                (case (if \<not> truthy c \<or> \<not> is_str c then py_slice_120 (py_or t (JStr []))
                       else Inr c) of
                   Inl e \<Rightarrow> Inl e
                 | Inr c' \<Rightarrow> Inr (ImageSlide t c' (Some (image_url_of topic idx))))
            | _ \<Rightarrow> Inr s) of
        Inl e \<Rightarrow> Inl e
      | Inr s' \<Rightarrow>
         (case ensure_image_fields topic (idx + 1) rest of
            Inl e \<Rightarrow> Inl e
          | Inr rest' \<Rightarrow> Inr (s' # rest')))"

text \<open>The padding and truncation to \<open>num_slides\<close>.\<close>

definition fit_slide_count :: "slide list \<Rightarrow> int \<Rightarrow> slide list" where
  "fit_slide_count normalized_slides num_slides =
     (if int (length normalized_slides) < num_slides then
        normalized_slides @
          map (\<lambda>i. TitleSlide (JStr (''Slide '' @ str_of_nat (i + 1))))
              [length normalized_slides..<nat num_slides]
      else if int (length normalized_slides) > num_slides then
        py_prefix normalized_slides num_slides
      else normalized_slides)"

text \<open>
  The body of \<open>generate_content_with_gemini\<close> from the parsed value \<open>data\<close> on. The whole
  body is inside \<open>try\<close>, and every exception is raised again as \<open>RuntimeError\<close>.
\<close>

definition normalize_slides ::
  "(json \<Rightarrow> string) \<Rightarrow> json \<Rightarrow> int \<Rightarrow> string \<Rightarrow> py_error + slide list" where
  "normalize_slides py_str data num_slides topic =
     (case data of
        JList items \<Rightarrow>
          (let normalized_slides = List.map_filter (map_slide py_str) items;
               normalized_slides = fit_slide_count normalized_slides num_slides
           in case ensure_image_fields topic 0 normalized_slides of
                Inl e \<Rightarrow> Inl RuntimeError
              | Inr slides \<Rightarrow> Inr slides)
      | _ \<Rightarrow> Inl RuntimeError)"

section \<open>Configuration and the choice of template in \<open>build_pptx\<close>\<close>

text \<open>
  \<open>ConfigurationUpdate\<close>: five optional strings. Only four of them have a validator;
  a validator raises \<open>ValueError\<close>, reported for its field.
\<close>

record configuration_update =
  theme_id :: "string option"
  font_name :: "string option"
  font_color :: "string option"
  background_color :: "string option"
  accent_color :: "string option"

datatype validation_error =
    FontNotSupported string
  | FontColorInvalid string
  | BackgroundColorInvalid string
  | AccentColorInvalid string

definition ALLOWED_FONTS :: "string list" where
  "ALLOWED_FONTS = [''Arial'', ''Calibri'', ''Times New Roman'', ''Segoe UI'', ''Poppins'']"

definition is_hex_digit :: "char \<Rightarrow> bool" where
  "is_hex_digit c \<longleftrightarrow> c \<in> set ''0123456789abcdefABCDEF''"

text \<open>
  \<open>HEX_COLOR_REGEX.match(v)\<close> for \<open>^#(?:[0-9a-fA-F]{3}){1,2}$\<close>; the \<open>$\<close> also matches
  before a final newline.
\<close>

definition hex_color_match :: "string \<Rightarrow> bool" where
  "hex_color_match v \<longleftrightarrow>
     (case v of
        [] \<Rightarrow> False
      | c # cs \<Rightarrow> c = CHR ''#'' \<and>
          (let ds = (if cs \<noteq> [] \<and> last cs = NL then butlast cs else cs)
           in (length ds = 3 \<or> length ds = 6) \<and> list_all is_hex_digit ds))"

definition validate_font :: "string option \<Rightarrow> validation_error list" where
  "validate_font v =
     (case v of
        Some f \<Rightarrow> if f \<noteq> [] \<and> f \<notin> set ALLOWED_FONTS then [FontNotSupported f] else []
      | None \<Rightarrow> [])"

definition validate_color ::
  "(string \<Rightarrow> validation_error) \<Rightarrow> string option \<Rightarrow> validation_error list" where
  "validate_color err v =
     (case v of
        Some col \<Rightarrow> if col \<noteq> [] \<and> \<not> hex_color_match col then [err col] else []
      | None \<Rightarrow> [])"

text \<open>
  Building a \<open>ConfigurationUpdate\<close>: the validators run field by field and the model is
  rejected with the errors they raised, if any. \<open>theme_id\<close> has no validator.
\<close>

definition validate_configuration ::
  "configuration_update \<Rightarrow> validation_error list + configuration_update" where
  "validate_configuration c =
     (let errors = validate_font (font_name c)
                 @ validate_color FontColorInvalid (font_color c)
                 @ validate_color BackgroundColorInvalid (background_color c)
                 @ validate_color AccentColorInvalid (accent_color c)
      in if errors = [] then Inr c else Inl errors)"

text \<open>
  \<open>TEMPLATE_MAP\<close>, for the directory \<open>TEMPLATE_DIR\<close> of the installation
  (\<open>os.path.join\<close> of a directory and a file name).
\<close>

definition path_join :: "string \<Rightarrow> string \<Rightarrow> string" where
  "path_join dir name = dir @ ''/'' @ name"

definition TEMPLATE_MAP :: "string \<Rightarrow> (string \<times> string) list" where
  "TEMPLATE_MAP template_dir =
     map (\<lambda>k. (k, path_join template_dir (k @ ''.pptx'')))
       [''ppt1'', ''ppt2'', ''ppt3'', ''ppt4'', ''ppt5'', ''ppt6'', ''ppt7'', ''ppt8'', ''ppt9'']"

text \<open>
  Step 1 of \<open>build_pptx\<close>: which presentation the deck starts from. \<open>config\<close> is the
  dictionary passed in, or \<open>None\<close>; \<open>file_exists\<close> is \<open>os.path.exists\<close>. A list or a
  dictionary is not hashable, so looking it up in \<open>TEMPLATE_MAP\<close> raises \<open>TypeError\<close>.
\<close>

datatype presentation_base = FromTemplate string | BlankDefault

definition choose_template ::
  "string \<Rightarrow> (string \<Rightarrow> bool) \<Rightarrow> (string \<times> json) list option \<Rightarrow> py_error + presentation_base" where
  "choose_template template_dir file_exists config =
     (let cfg = (case config of None \<Rightarrow> [] | Some d \<Rightarrow> if d \<noteq> [] then d else []);
          theme = py_or (dict_get cfg ''theme_id'' JNull) (JStr ''ppt1'')
      in case theme of
           JList _ \<Rightarrow> Inl TypeError
         | JDict _ \<Rightarrow> Inl TypeError
         | JStr name \<Rightarrow>
             (case map_of (TEMPLATE_MAP template_dir) name of
                Some template_path \<Rightarrow>
                  if template_path \<noteq> [] \<and> file_exists template_path
                  then Inr (FromTemplate template_path) else Inr BlankDefault
              | None \<Rightarrow> Inr BlankDefault)
         | _ \<Rightarrow> Inr BlankDefault)"

section \<open>Auxiliary definitions for the statements\<close>

text \<open>
  The number of sections on the first \<open>k\<close> pages of a balanced partition with quotient
  \<open>b\<close> and remainder \<open>r\<close>.
\<close>

definition page_offset :: "nat \<Rightarrow> nat \<Rightarrow> nat \<Rightarrow> nat" where
  "page_offset b r k = k * b + min k r"

text \<open>
  An instance of the builtin \<open>str\<close> for the examples: exact on strings and scalars. The
  \<open>repr\<close> of lists and dictionaries is not modelled; the statements about
  \<open>normalize_slides\<close> hold for every \<open>py_str\<close>.
\<close>

definition py_str_scalar :: "json \<Rightarrow> string" where
  "py_str_scalar v =
     (case v of
        JStr s \<Rightarrow> s
      | JNull \<Rightarrow> ''None''
      | JBool b \<Rightarrow> (if b then ''True'' else ''False'')
      | JInt i \<Rightarrow> (if i < 0 then ''-'' @ str_of_nat (nat (- i)) else str_of_nat (nat i))
      | JFloat r \<Rightarrow> r
      | _ \<Rightarrow> ''...'')"

text \<open>A file system in which every template file exists.\<close>

definition every_file_exists :: "string \<Rightarrow> bool" where
  "every_file_exists path = True"

text \<open>An escaped line break: a backslash followed by the letter \<open>n\<close>.\<close>

fun has_escape :: "string \<Rightarrow> bool" where
  "has_escape (a # b # cs) = ((a = BSL \<and> b = CHR ''n'') \<or> has_escape (b # cs))"
| "has_escape _ = False"


text \<open>
  The stages of \<open>_clean_section_content\<close> on lines: the stripped lines of the text after
  the newline normalization, and the lines that are joined at the end.
\<close>

definition raw_lines :: "string \<Rightarrow> string list" where
  "raw_lines raw = map strip (split_on NL (normalise_newlines raw))"

definition cleaned_lines :: "string \<Rightarrow> string \<Rightarrow> string \<Rightarrow> string list" where
  "cleaned_lines doc_title h raw =
     trim_blank (collapse_blank []
       (strip_meta_lines (lower (strip doc_title)) (lower (strip h)) (raw_lines raw)))"

text \<open>
  The shape of a line of the output: stripped, and free of line breaks of all three kinds.
\<close>

definition line_ok :: "string \<Rightarrow> bool" where
  "line_ok l \<longleftrightarrow> strip l = l \<and> NL \<notin> set l \<and> CR \<notin> set l \<and> \<not> has_escape l"

text \<open>
  The blank-collapsing loop without its accumulator (the flag says that the last line
  kept is blank), and the lists it leaves unchanged.
\<close>

fun collapse_from :: "bool \<Rightarrow> string list \<Rightarrow> string list" where
  "collapse_from b [] = []"
| "collapse_from b (l # ls) =
     (if l = [] then (if b then collapse_from True ls else [] # collapse_from True ls)
      else l # collapse_from False ls)"

fun spaced :: "bool \<Rightarrow> string list \<Rightarrow> bool" where
  "spaced b [] = True"
| "spaced b (l # ls) = (if l = [] then \<not> b \<and> spaced True ls else spaced False ls)"


text \<open>The shape of the list of lines that \<open>_clean_section_content\<close> joins.\<close>

definition clean_form :: "string \<Rightarrow> string \<Rightarrow> string list \<Rightarrow> bool" where
  "clean_form dtl hl ls \<longleftrightarrow>
     (\<forall>l \<in> set ls. line_ok l) \<and>
     (ls = [] \<or> (hd ls \<noteq> [] \<and> last ls \<noteq> [])) \<and>
     spaced False ls \<and>
     (ls \<noteq> [] \<longrightarrow> is_meta_line dtl hl (lower (hd ls)) \<longrightarrow> (\<forall>x \<in> set (tl ls). x = []))"



text \<open>
  The words of a text, as \<open>str.split()\<close> gives them: the maximal runs of characters that
  are not white space. \<open>w\<close> is the word being read.
\<close>

fun word_tokens :: "string \<Rightarrow> string \<Rightarrow> string list" where
  "word_tokens w [] = (if w = [] then [] else [w])"
| "word_tokens w (c # cs) =
     (if is_space c then (if w = [] then word_tokens [] cs else w # word_tokens [] cs)
      else word_tokens (w @ [c]) cs)"

definition py_words :: "string \<Rightarrow> string list" where
  "py_words s = word_tokens [] s"

text \<open>
  A section whose content keeps a word through the normalization: the last non-blank
  line of the content (after the conversion of line breaks) has a word character. The
  meta-line loop never drops that line.
\<close>

definition has_word :: "string \<Rightarrow> bool" where
  "has_word s \<longleftrightarrow> list_ex is_word_char s"

definition ends_with_word :: "doc_section \<Rightarrow> bool" where
  "ends_with_word sec \<longleftrightarrow>
     (case rev (filter (\<lambda>l. l \<noteq> []) (raw_lines (content sec))) of
        [] \<Rightarrow> False
      | l # _ \<Rightarrow> has_word l)"

text \<open>A text without a line break of any of the three kinds.\<close>

definition plain :: "string \<Rightarrow> bool" where
  "plain s \<longleftrightarrow> NL \<notin> set s \<and> CR \<notin> set s \<and> \<not> has_escape s"

section \<open>The section splitter returns the requested number of parts\<close>

lemma sentence_fold_length:
  "length (fst (foldl (sentence_step h ss cs) (out, idx) is)) = length out + length is"
  by (induction "is" arbitrary: out idx) (simp_all add: sentence_step_def Let_def)

lemma paragraph_fold_length:
  "length (fst (foldl (paragraph_step h ps b r) (out, ptr) is)) = length out + length is"
  by (induction "is" arbitrary: out ptr) (simp_all add: paragraph_step_def Let_def)

lemma sentence_chunks_length: "length (fst (sentence_chunks h ss parts)) = parts"
  by (simp add: sentence_chunks_def Let_def sentence_fold_length)

lemma append_leftover_total:
  "out \<noteq> [] \<Longrightarrow> \<exists>out'. append_leftover out lo = Inr out' \<and> length out' = length out"
  by (simp add: append_leftover_def)

lemma split_by_sentences_total:
  assumes "1 \<le> parts"
  shows "\<exists>out. split_by_sentences h ps parts = Inr out \<and> length out = parts"
proof -
  have "fst (sentence_chunks h (paragraph_sentences ps) parts) \<noteq> []"
    using sentence_chunks_length[of h "paragraph_sentences ps" parts] assms by auto
  from append_leftover_total[OF this] show ?thesis
    by (simp add: split_by_sentences_def Let_def sentence_chunks_length)
qed

lemma split_by_paragraphs_total:
  assumes "1 \<le> parts"
  shows "\<exists>out. split_by_paragraphs h ps parts = Inr out \<and> length out = parts"
  using assms by (simp add: split_by_paragraphs_def Let_def paragraph_fold_length)

lemma split_section_total:
  assumes "1 \<le> parts"
  shows "\<exists>out. split_section_into_parts sec parts = Inr out \<and> length out = parts"
  using split_by_sentences_total[OF assms] split_by_paragraphs_total[OF assms]
  by (simp add: split_section_into_parts_def Let_def)

section \<open>The page distributor is total and covers the pages\<close>

lemma longest_step_simp:
  "longest_step (b, w) (n, p) =
     (if p \<noteq> [] \<and> w < sum_list (map word_count p) then (Some n, sum_list (map word_count p))
      else (b, w))"
  by (simp add: longest_step_def Let_def)

lemma longest_fold_cases:
  "foldl longest_step (b, w) (enumerate n pl) = (b', w') \<Longrightarrow>
     (b' = b \<and> w' = w) \<or>
     (\<exists>k < length pl. b' = Some (n + k) \<and> pl ! k \<noteq> [] \<and> w < w'
          \<and> w' = sum_list (map word_count (pl ! k)))"
proof (induction pl arbitrary: b w n)
  case Nil
  then show ?case by simp
next
  case (Cons p pl)
  show ?case
  proof (cases "p \<noteq> [] \<and> w < sum_list (map word_count p)")
    case True
    with Cons.prems have
      "foldl longest_step (Some n, sum_list (map word_count p)) (enumerate (Suc n) pl) = (b', w')"
      by (simp add: longest_step_simp)
    from Cons.IH[OF this] show ?thesis
    proof
      assume "b' = Some n \<and> w' = sum_list (map word_count p)"
      with True have "0 < length (p # pl) \<and> b' = Some (n + 0) \<and> (p # pl) ! 0 \<noteq> [] \<and> w < w'
          \<and> w' = sum_list (map word_count ((p # pl) ! 0))" by simp
      then show ?thesis by blast
    next
      assume "\<exists>k<length pl. b' = Some (Suc n + k) \<and> pl ! k \<noteq> [] \<and>
          sum_list (map word_count p) < w' \<and> w' = sum_list (map word_count (pl ! k))"
      then obtain k where "k < length pl" "b' = Some (Suc n + k)" "pl ! k \<noteq> []"
        "sum_list (map word_count p) < w'" "w' = sum_list (map word_count (pl ! k))" by blast
      with True have "Suc k < length (p # pl) \<and> b' = Some (n + Suc k) \<and> (p # pl) ! Suc k \<noteq> []
          \<and> w < w' \<and> w' = sum_list (map word_count ((p # pl) ! Suc k))" by simp
      then show ?thesis by blast
    qed
  next
    case False
    with Cons.prems have "foldl longest_step (b, w) (enumerate (Suc n) pl) = (b', w')"
      by (simp add: longest_step_simp)
    from Cons.IH[OF this] show ?thesis
    proof
      assume "b' = b \<and> w' = w"
      then show ?thesis by simp
    next
      assume "\<exists>k<length pl. b' = Some (Suc n + k) \<and> pl ! k \<noteq> [] \<and>
          w < w' \<and> w' = sum_list (map word_count (pl ! k))"
      then obtain k where "k < length pl" "b' = Some (Suc n + k)" "pl ! k \<noteq> []"
        "w < w'" "w' = sum_list (map word_count (pl ! k))" by blast
      then have "Suc k < length (p # pl) \<and> b' = Some (n + Suc k) \<and> (p # pl) ! Suc k \<noteq> []
          \<and> w < w' \<and> w' = sum_list (map word_count ((p # pl) ! Suc k))" by simp
      then show ?thesis by blast
    qed
  qed
qed

lemma longest_page_Some:
  assumes "longest_page pl = Some i"
  shows "i < length pl \<and> pl ! i \<noteq> [] \<and> 0 < sum_list (map word_count (pl ! i))"
proof -
  obtain b' w' where f: "foldl longest_step (None, 0) (enumerate 0 pl) = (b', w')"
    by (cases "foldl longest_step (None, 0) (enumerate 0 pl)") auto
  with assms have "b' = Some i" by (simp add: longest_page_def)
  with longest_fold_cases[OF f] show ?thesis by auto
qed

lemma find_enumerate_empty:
  "find (\<lambda>(j, pg). pg = []) (enumerate n pl) = Some (j, pg) \<Longrightarrow>
     (\<exists>k < length pl. j = n + k \<and> pl ! k = [])"
proof (induction pl arbitrary: n)
  case Nil
  then show ?case by simp
next
  case (Cons p pl)
  show ?case
  proof (cases "p = []")
    case True
    with Cons.prems have "j = n" by simp
    with True have "0 < length (p # pl) \<and> j = n + 0 \<and> (p # pl) ! 0 = []" by simp
    then show ?thesis by blast
  next
    case False
    with Cons.prems have "find (\<lambda>(j, pg). pg = []) (enumerate (Suc n) pl) = Some (j, pg)" by simp
    from Cons.IH[OF this] obtain k where "k < length pl" "j = Suc n + k" "pl ! k = []" by blast
    then have "Suc k < length (p # pl) \<and> j = n + Suc k \<and> (p # pl) ! Suc k = []" by simp
    then show ?thesis by blast
  qed
qed

lemma next_empty_page_Some:
  "next_empty_page pl = Some j \<Longrightarrow> j < length pl \<and> pl ! j = []"
  unfolding next_empty_page_def using find_enumerate_empty[of 0 pl] by auto

lemma next_empty_page_None:
  "next_empty_page pl = None \<longleftrightarrow> (\<forall>p \<in> set pl. p \<noteq> [])"
proof -
  have "set (map snd (enumerate 0 pl)) = set pl" by (simp add: enumerate_eq_zip)
  then have "(\<forall>x \<in> set (enumerate 0 pl). snd x \<noteq> []) \<longleftrightarrow> (\<forall>p \<in> set pl. p \<noteq> [])"
    by (metis (no_types, lifting) image_iff set_map)
  moreover have "(\<forall>x \<in> set (enumerate 0 pl). snd x \<noteq> []) \<longleftrightarrow>
      (\<forall>a. (a, []) \<notin> set (enumerate 0 pl))" by force
  ultimately show ?thesis
    by (simp add: next_empty_page_def find_None_iff case_prod_beta)
qed

lemma fill_empty_pages_total:
  "\<exists>pl'. fill_empty_pages k pl = Inr pl' \<and> length pl' = length pl"
proof (induction k arbitrary: pl)
  case 0
  then show ?case by simp
next
  case (Suc k)
  show ?case
  proof (cases "longest_page pl")
    case None
    then show ?thesis by simp
  next
    case (Some i)
    from longest_page_Some[OF Some] obtain s rest where pi: "pl ! i = s # rest"
      by (cases "pl ! i") auto
    from split_section_total[of 2 s] obtain p0 p1 where
      sp: "split_section_into_parts s 2 = Inr [p0, p1]"
      by (auto simp: length_Suc_conv numeral_2_eq_2)
    let ?pl1 = "pl[i := rest @ [p0]]"
    show ?thesis
    proof (cases "next_empty_page ?pl1")
      case None
      then show ?thesis using Some pi sp by (simp add: Let_def)
    next
      case (Some j)
      from Suc.IH[of "?pl1[j := ?pl1 ! j @ [p1]]"] show ?thesis
        using \<open>longest_page pl = Some i\<close> pi sp Some by (simp add: Let_def)
    qed
  qed
qed

lemma seed_fold_length:
  "length (foldl (seed_step n) pl xs) = length pl"
  by (induction xs arbitrary: pl) (auto simp: seed_step_def split: prod.splits)

lemma pages_of_list_fold_apply:
  "foldl (\<lambda>pgs (idx, page). pgs(idx + 1 \<mapsto> page)) pages (enumerate n pl) a =
     (if n + 1 \<le> a \<and> a < n + 1 + length pl then Some (pl ! (a - (n + 1))) else pages a)"
proof (induction pl arbitrary: pages n)
  case Nil
  then show ?case by auto
next
  case (Cons p pl)
  have "foldl (\<lambda>pgs (idx, page). pgs(idx + 1 \<mapsto> page)) pages (enumerate n (p # pl)) a =
        foldl (\<lambda>pgs (idx, page). pgs(idx + 1 \<mapsto> page)) (pages(n + 1 \<mapsto> p)) (enumerate (Suc n) pl) a"
    by simp
  also have "\<dots> = (if Suc n + 1 \<le> a \<and> a < Suc n + 1 + length pl then Some (pl ! (a - (Suc n + 1)))
                   else (pages(n + 1 \<mapsto> p)) a)"
    by (rule Cons.IH)
  also have "\<dots> = (if n + 1 \<le> a \<and> a < n + 1 + length (p # pl)
                   then Some ((p # pl) ! (a - (n + 1))) else pages a)"
  proof (cases "a = n + 1")
    case True
    then show ?thesis by simp
  next
    case False
    then show ?thesis by (auto simp: nth_Cons')
  qed
  finally show ?case .
qed

lemma pages_of_list_apply:
  "pages_of_list pages pl a =
     (if 1 \<le> a \<and> a \<le> length pl then Some (pl ! (a - 1)) else pages a)"
  unfolding pages_of_list_def pages_of_list_fold_apply by auto

lemma dom_empty_pages: "dom (empty_pages n) = {1..n}"
  by (auto simp: empty_pages_def dom_def)

lemma dom_pages_of_list:
  "length pl = n \<Longrightarrow> dom (pages_of_list (empty_pages n) pl) = {1..n}"
  by (auto simp: dom_def pages_of_list_apply empty_pages_def)

lemma balanced_fold_dom:
  "dom (fst (foldl (balanced_step secs b r) (pages, idx) ps)) = dom pages \<union> set ps"
  by (induction ps arbitrary: pages idx) (auto simp: balanced_step_def Let_def)

lemma distribute_total_dom:
  "\<exists>pages. distribute_sections_across_pages sections num_pages = Inr pages \<and>
           dom pages = {1 .. nat (max num_pages 1)}"
proof -
  define n where "n = nat (if num_pages \<le> 0 then 1 else num_pages)"
  have n: "n = nat (max num_pages 1)" by (auto simp: n_def max_def)
  have n1: "1 \<le> n" by (auto simp: n_def)
  consider (empty) "length sections = 0" | (a) "length sections \<noteq> 0" "n \<le> length sections"
    | (b) "length sections \<noteq> 0" "length sections < n" by linarith
  then show ?thesis
  proof cases
    case empty
    then show ?thesis
      by (simp add: distribute_sections_across_pages_def Let_def dom_empty_pages n[symmetric] n_def[symmetric])
  next
    case a
    have "{1..n} \<union> set [1..<n + 1] = {1..n}" by auto
    with a show ?thesis
      by (simp add: distribute_sections_across_pages_def Let_def n[symmetric] n_def[symmetric]
          balanced_fold_dom dom_empty_pages del: upt_Suc)
  next
    case b
    define pl where "pl = foldl (seed_step n) (replicate n []) (enumerate 0 (sort_by_words_desc sections))"
    have lpl: "length pl = n" by (simp add: pl_def seed_fold_length)
    obtain pl' where f: "fill_empty_pages (n - length (filter (\<lambda>p. p \<noteq> []) pl)) pl = Inr pl'"
      and l': "length pl' = length pl"
      using fill_empty_pages_total by blast
    from b f show ?thesis
      using dom_pages_of_list[of pl' n] l' lpl
      by (simp add: distribute_sections_across_pages_def Let_def n[symmetric] n_def[symmetric]
          pl_def[symmetric])
  qed
qed

section \<open>The balanced partition\<close>

lemma page_offset_Suc:
  "page_offset b r (Suc k) = page_offset b r k + (b + (if Suc k \<le> r then 1 else 0))"
  by (auto simp: page_offset_def min_def)

lemma balanced_fold_state:
  "foldl (balanced_step secs b r) (pages, 0) [1..<k + 1] =
     ((\<lambda>a. if 1 \<le> a \<and> a \<le> k
            then Some (slice secs (page_offset b r (a - 1)) (page_offset b r a))
            else pages a),
      page_offset b r k)"
proof (induction k)
  case 0
  then show ?case by (auto simp: page_offset_def fun_eq_iff)
next
  case (Suc k)
  have "[1..<Suc k + 1] = [1..<k + 1] @ [Suc k]" by simp
  then have "foldl (balanced_step secs b r) (pages, 0) [1..<Suc k + 1] =
      balanced_step secs b r (foldl (balanced_step secs b r) (pages, 0) [1..<k + 1]) (Suc k)"
    by (simp only: foldl_append foldl_Cons foldl_Nil)
  also have "\<dots> = balanced_step secs b r
      ((\<lambda>a. if 1 \<le> a \<and> a \<le> k
            then Some (slice secs (page_offset b r (a - 1)) (page_offset b r a))
            else pages a), page_offset b r k) (Suc k)"
    by (simp only: Suc.IH)
  also have "\<dots> = ((\<lambda>a. if 1 \<le> a \<and> a \<le> Suc k
            then Some (slice secs (page_offset b r (a - 1)) (page_offset b r a))
            else pages a), page_offset b r (Suc k))"
    unfolding balanced_step_def Let_def prod.case
    by (rule prod_eqI) (auto simp: page_offset_Suc fun_eq_iff)
  finally show ?case .
qed

lemma balanced_fold_state':
  "foldl (balanced_step secs b r) (pages, 0) [Suc 0..<Suc k] =
     ((\<lambda>a. if 1 \<le> a \<and> a \<le> k
            then Some (slice secs (page_offset b r (a - 1)) (page_offset b r a))
            else pages a),
      page_offset b r k)"
  using balanced_fold_state[of secs b r pages k] by simp

lemma concat_slices:
  "concat (map (\<lambda>a. slice secs (page_offset b r (a - 1)) (page_offset b r a)) [1..<k + 1])
     = take (page_offset b r k) secs"
proof (induction k)
  case 0
  then show ?case by (simp add: page_offset_def)
next
  case (Suc k)
  have le: "page_offset b r k \<le> page_offset b r (Suc k)" by (simp add: page_offset_Suc)
  have "take (page_offset b r k) secs @ slice secs (page_offset b r k) (page_offset b r (Suc k))
        = take (page_offset b r (Suc k)) secs"
    using le unfolding slice_def
    by (metis le_add_diff_inverse take_add)
  with Suc show ?case by simp
qed

lemma page_offset_total:
  "0 < n \<Longrightarrow> page_offset (m div n) (m mod n) n = m"
  by (simp add: page_offset_def min_def) (metis mod_less_divisor less_imp_le_nat not_le)

lemma length_slice_page:
  assumes "page_offset b r n \<le> length secs" "1 \<le> a" "a \<le> n"
  shows "length (slice secs (page_offset b r (a - 1)) (page_offset b r a))
           = b + (if a \<le> r then 1 else 0)"
proof -
  obtain k where a: "a = Suc k" using assms(2) by (cases a) auto
  have "page_offset b r a \<le> page_offset b r n"
    using assms(3) by (auto simp: page_offset_def min_def intro: add_mono mult_le_mono1)
  with assms(1) have "page_offset b r a \<le> length secs" by simp
  then show ?thesis
    unfolding a slice_def by (simp add: page_offset_Suc)
qed

lemma distribute_case_a:
  assumes "1 \<le> num_pages" "num_pages \<le> int (length sections)"
  shows "distribute_sections_across_pages sections num_pages =
     Inr (\<lambda>a. if 1 \<le> a \<and> a \<le> nat num_pages
            then Some (slice sections
                   (page_offset (length sections div nat num_pages)
                      (length sections mod nat num_pages) (a - 1))
                   (page_offset (length sections div nat num_pages)
                      (length sections mod nat num_pages) a))
            else None)"
proof -
  have 1: "length sections \<noteq> 0" "nat num_pages \<le> length sections" "\<not> num_pages \<le> 0"
    using assms by auto
  show ?thesis
    unfolding distribute_sections_across_pages_def Let_def
    using 1 by (simp add: balanced_fold_state' empty_pages_def fun_eq_iff del: upt_Suc)
qed

section \<open>Claims on the page distributor\<close>

text \<open>
  Claim C1. For every list of sections and every integer \<open>num_pages\<close>,
  \<open>distribute_sections_across_pages\<close> returns a mapping (it raises nothing) whose key set
  is exactly \<open>{1, ..., max(num_pages, 1)}\<close>: a \<open>num_pages \<le> 0\<close> is clamped to 1. Each key
  is mapped to a list of sections, by the type of the mapping.
\<close>

theorem C1_page_keys:
  "\<exists>pages. distribute_sections_across_pages sections num_pages = Inr pages \<and>
           dom pages = {1 .. nat (max num_pages 1)}"
  by (rule distribute_total_dom)

theorem C1_page_keys_witness:
  "\<exists>pages. distribute_sections_across_pages
              [\<lparr>heading = ''Intro'', content = ''One two. Three four.''\<rparr>] (- 2) = Inr pages \<and>
           dom pages = {1 .. 1}"
  using C1_page_keys[of "[\<lparr>heading = ''Intro'', content = ''One two. Three four.''\<rparr>]" "- 2"]
  by simp

lemma balanced_partition_general:
  assumes "1 \<le> num_pages" and "num_pages \<le> int (length sections)"
  shows "\<exists>pages chunks.
           distribute_sections_across_pages sections num_pages = Inr pages \<and>
           map pages [1..<nat num_pages + 1] = map Some chunks \<and>
           concat chunks = sections \<and>
           (\<forall>i < nat num_pages. length (chunks ! i) =
               length sections div nat num_pages +
               (if i < length sections mod nat num_pages then 1 else 0))"
proof -
  define n where "n = nat num_pages"
  define b where "b = length sections div n"
  define r where "r = length sections mod n"
  define chunks where
    "chunks = map (\<lambda>a. slice sections (page_offset b r (a - 1)) (page_offset b r a)) [1..<n + 1]"
  define pages :: pages where
    "pages = (\<lambda>a. if 1 \<le> a \<and> a \<le> n
            then Some (slice sections (page_offset b r (a - 1)) (page_offset b r a)) else None)"
  have n: "0 < n" "n \<le> length sections" using assms by (auto simp: n_def)
  have d: "distribute_sections_across_pages sections num_pages = Inr pages"
    unfolding pages_def b_def r_def n_def by (rule distribute_case_a[OF assms])
  have m: "map pages [1..<n + 1] = map Some chunks"
    unfolding chunks_def pages_def by (simp del: upt_Suc)
  have tot: "page_offset b r n = length sections"
    unfolding b_def r_def using n(1) by (rule page_offset_total)
  have c: "concat chunks = sections"
    unfolding chunks_def concat_slices tot by simp
  have l: "length (chunks ! i) = b + (if i < r then 1 else 0)" if "i < n" for i
  proof -
    have "chunks ! i = slice sections (page_offset b r i) (page_offset b r (Suc i))"
      using that unfolding chunks_def by (simp del: upt_Suc)
    moreover have "length (slice sections (page_offset b r (Suc i - 1)) (page_offset b r (Suc i)))
        = b + (if Suc i \<le> r then 1 else 0)"
      using that tot by (intro length_slice_page[where n = n]) auto
    ultimately show ?thesis by (simp add: Suc_le_eq)
  qed
  show ?thesis
    using d m c l unfolding n_def[symmetric] b_def[symmetric] r_def[symmetric] by blast
qed

lemma balanced_partition_scenario:
  "\<exists>pages. distribute_sections_across_pages [A, B, C, D, E] 2 = Inr pages \<and>
           pages 1 = Some [A, B, C] \<and> pages 2 = Some [D, E]"
proof -
  have "distribute_sections_across_pages [A, B, C, D, E] 2 =
     Inr (\<lambda>a. if 1 \<le> a \<and> a \<le> nat 2
            then Some (slice [A, B, C, D, E]
                   (page_offset (length [A, B, C, D, E] div nat 2)
                      (length [A, B, C, D, E] mod nat 2) (a - 1))
                   (page_offset (length [A, B, C, D, E] div nat 2)
                      (length [A, B, C, D, E] mod nat 2) a))
            else None)"
    by (rule distribute_case_a) simp_all
  then show ?thesis
    by (simp add: page_offset_def slice_def)
qed

text \<open>
  Claim C2. For \<open>num_pages \<ge> 1\<close> and at least \<open>num_pages\<close> sections, the pages
  \<open>1..num_pages\<close> hold consecutive chunks of the input whose concatenation in page order
  is the input itself; with \<open>base = len(sections) // num_pages\<close> and
  \<open>rem = len(sections) mod num_pages\<close>, the first \<open>rem\<close> pages (index \<open>i < rem\<close>, page
  \<open>i + 1\<close>) hold \<open>base + 1\<close> sections and the others \<open>base\<close>. In particular
  \<open>distribute([A,B,C,D,E], 2)\<close> gives page 1 = \<open>[A,B,C]\<close> and page 2 = \<open>[D,E]\<close>.
\<close>

theorem C2_balanced_partition:
  "(1 \<le> num_pages \<and> num_pages \<le> int (length sections) \<longrightarrow>
      (\<exists>pages chunks.
           distribute_sections_across_pages sections num_pages = Inr pages \<and>
           map pages [1..<nat num_pages + 1] = map Some chunks \<and>
           concat chunks = sections \<and>
           (\<forall>i < nat num_pages. length (chunks ! i) =
               length sections div nat num_pages +
               (if i < length sections mod nat num_pages then 1 else 0)))) \<and>
   (\<exists>pages. distribute_sections_across_pages [A, B, C, D, E] 2 = Inr pages \<and>
           pages 1 = Some [A, B, C] \<and> pages 2 = Some [D, E])"
  using balanced_partition_general[of num_pages sections] balanced_partition_scenario[of A B C D E]
  by blast

theorem C2_balanced_partition_witness:
  "(1::int) \<le> 2 \<and> (2::int) \<le> int (length [\<lparr>heading = ''A'', content = ''a''\<rparr>,
        \<lparr>heading = ''B'', content = ''b''\<rparr>, \<lparr>heading = ''C'', content = ''c''\<rparr>]) \<and>
   (\<exists>pages chunks.
      distribute_sections_across_pages [\<lparr>heading = ''A'', content = ''a''\<rparr>,
        \<lparr>heading = ''B'', content = ''b''\<rparr>, \<lparr>heading = ''C'', content = ''c''\<rparr>] 2 = Inr pages \<and>
      map pages [1, 2] = map Some chunks \<and>
      concat chunks = [\<lparr>heading = ''A'', content = ''a''\<rparr>,
        \<lparr>heading = ''B'', content = ''b''\<rparr>, \<lparr>heading = ''C'', content = ''c''\<rparr>] \<and>
      length (chunks ! 0) = 2 \<and> length (chunks ! 1) = 1)"
proof -
  let ?secs = "[\<lparr>heading = ''A'', content = ''a''\<rparr>,
        \<lparr>heading = ''B'', content = ''b''\<rparr>, \<lparr>heading = ''C'', content = ''c''\<rparr>]"
  have h: "(1::int) \<le> 2 \<and> (2::int) \<le> int (length ?secs)" by simp
  from C2_balanced_partition[of 2 ?secs] h obtain pages chunks where
    "distribute_sections_across_pages ?secs 2 = Inr pages"
    "map pages [1..<nat 2 + 1] = map Some chunks" "concat chunks = ?secs"
    "\<forall>i < nat 2. length (chunks ! i) =
               length ?secs div nat 2 + (if i < length ?secs mod nat 2 then 1 else 0)"
    by blast
  moreover from this(4) have "length (chunks ! 0) = 2 \<and> length (chunks ! 1) = 1"
    by (auto dest: spec[where x = 0] spec[where x = 1])
  moreover have "[1..<nat 2 + 1] = [1, 2]" by (simp add: upt_rec)
  ultimately show ?thesis using h by (metis (no_types, lifting))
qed

section \<open>Claims on the headings of the parts\<close>







lemma strip_Nil [simp]: "strip [] = []"
  by (simp add: strip_def lstrip_def rstrip_def)






section \<open>Claims on the configuration and the template\<close>

lemma validate_configuration_theme:
  "validate_configuration (c\<lparr>theme_id := t\<rparr>) =
     (case validate_configuration c of Inl e \<Rightarrow> Inl e | Inr c' \<Rightarrow> Inr (c'\<lparr>theme_id := t\<rparr>))"
  by (simp add: validate_configuration_def Let_def)

lemma config_or_empty: "(if cfg \<noteq> [] then cfg else []) = (cfg :: (string \<times> json) list)"
  by simp

lemma choose_template_default:
  assumes "config = None \<or> (\<exists>cfg. config = Some cfg \<and>
             map_of cfg ''theme_id'' \<in> {None, Some JNull, Some (JStr [])})"
  shows "choose_template td ex config =
     Inr (if ex (path_join td ''ppt1.pptx'') then FromTemplate (path_join td ''ppt1.pptx'')
          else BlankDefault)"
  using assms
  by (auto simp: choose_template_def Let_def dict_get_def py_or_def TEMPLATE_MAP_def path_join_def
      config_or_empty)

lemma choose_template_unknown:
  assumes "map_of cfg ''theme_id'' = Some (JStr name)" "name \<noteq> []"
    "name \<notin> set [''ppt1'', ''ppt2'', ''ppt3'', ''ppt4'', ''ppt5'', ''ppt6'', ''ppt7'', ''ppt8'', ''ppt9'']"
  shows "choose_template td ex (Some cfg) = Inr BlankDefault"
proof -
  have "cfg \<noteq> []" using assms(1) by auto
  moreover have "map_of (TEMPLATE_MAP td) name = None"
    using assms(3) by (simp add: TEMPLATE_MAP_def)
  ultimately show ?thesis using assms(1,2)
    by (simp add: choose_template_def Let_def dict_get_def py_or_def)
qed

lemma choose_template_known:
  assumes "map_of cfg ''theme_id'' = Some (JStr name)"
    "name \<in> set [''ppt1'', ''ppt2'', ''ppt3'', ''ppt4'', ''ppt5'', ''ppt6'', ''ppt7'', ''ppt8'', ''ppt9'']"
  shows "choose_template td ex (Some cfg) =
     Inr (if ex (path_join td (name @ ''.pptx'')) then FromTemplate (path_join td (name @ ''.pptx''))
          else BlankDefault)"
proof -
  have "cfg \<noteq> []" using assms(1) by auto
  moreover have "name \<noteq> []" using assms(2) by auto
  moreover have "map_of (TEMPLATE_MAP td) name = Some (path_join td (name @ ''.pptx''))"
    using assms(2) by (auto simp: TEMPLATE_MAP_def)
  moreover have "path_join td (name @ ''.pptx'') \<noteq> []" by (simp add: path_join_def)
  ultimately show ?thesis using assms(1)
    by (simp add: choose_template_def Let_def dict_get_def py_or_def)
qed


text \<open>
  Claim C10, as the code has it. No validator reads \<open>theme_id\<close>: changing it never changes
  whether a configuration is accepted, nor the errors reported. In \<open>build_pptx\<close> a
  \<open>theme_id\<close> that is missing, null or empty (or a missing configuration) selects the
  \<open>ppt1\<close> template when its file exists and the blank default presentation otherwise; a
  known identifier selects its own template when the file exists and the blank default
  otherwise; a non-empty identifier that is not among the known ones selects the blank
  default presentation, whether or not the \<open>ppt1\<close> template exists. None of these raises.
\<close>

theorem C10_theme_fallback:
  "validate_configuration (c\<lparr>theme_id := t\<rparr>) =
     (case validate_configuration c of Inl e \<Rightarrow> Inl e | Inr c' \<Rightarrow> Inr (c'\<lparr>theme_id := t\<rparr>)) \<and>
   (config = None \<or> (\<exists>cfg. config = Some cfg \<and>
        map_of cfg ''theme_id'' \<in> {None, Some JNull, Some (JStr [])}) \<longrightarrow>
      choose_template td ex config =
        Inr (if ex (path_join td ''ppt1.pptx'') then FromTemplate (path_join td ''ppt1.pptx'')
             else BlankDefault)) \<and>
   (map_of cfg ''theme_id'' = Some (JStr name) \<and> name \<noteq> [] \<and>
    name \<notin> set (map fst (TEMPLATE_MAP td)) \<longrightarrow>
      choose_template td ex (Some cfg) = Inr BlankDefault) \<and>
   (map_of cfg ''theme_id'' = Some (JStr name) \<and> name \<in> set (map fst (TEMPLATE_MAP td)) \<longrightarrow>
      choose_template td ex (Some cfg) =
        Inr (if ex (path_join td (name @ ''.pptx''))
             then FromTemplate (path_join td (name @ ''.pptx'')) else BlankDefault))"
proof -
  have k: "set (map fst (TEMPLATE_MAP td)) =
      set [''ppt1'', ''ppt2'', ''ppt3'', ''ppt4'', ''ppt5'', ''ppt6'', ''ppt7'', ''ppt8'', ''ppt9'']"
    by (simp add: TEMPLATE_MAP_def)
  show ?thesis
    unfolding k
    using validate_configuration_theme[where c = c and t = t] choose_template_default[of config td ex]
      choose_template_unknown[of cfg name td ex] choose_template_known[of cfg name td ex]
    by blast
qed

theorem C10_theme_fallback_witness:
  "choose_template ''/app/ppt_templates'' every_file_exists (Some [(''theme_id'', JNull)]) =
     Inr (FromTemplate ''/app/ppt_templates/ppt1.pptx'') \<and>
   choose_template ''/app/ppt_templates'' every_file_exists (Some [(''theme_id'', JStr ''ppt3'')]) =
     Inr (FromTemplate ''/app/ppt_templates/ppt3.pptx'') \<and>
   choose_template ''/app/ppt_templates'' every_file_exists (Some [(''theme_id'', JStr ''dark'')]) =
     Inr BlankDefault"
proof -
  have a: "map_of [(''theme_id'', JNull)] ''theme_id'' \<in> {None, Some JNull, Some (JStr [])}"
    by simp
  have b: "map_of [(''theme_id'', JStr ''ppt3'')] ''theme_id'' = Some (JStr ''ppt3'') \<and>
           ''ppt3'' \<in> set (map fst (TEMPLATE_MAP ''/app/ppt_templates''))"
    by (simp add: TEMPLATE_MAP_def)
  have c: "map_of [(''theme_id'', JStr ''dark'')] ''theme_id'' = Some (JStr ''dark'') \<and> ''dark'' \<noteq> [] \<and>
           ''dark'' \<notin> set (map fst (TEMPLATE_MAP ''/app/ppt_templates''))"
    by (simp add: TEMPLATE_MAP_def)
  from C10_theme_fallback[of _ _ "Some [(''theme_id'', JNull)]" "''/app/ppt_templates''"
      every_file_exists] a
  have 1: "choose_template ''/app/ppt_templates'' every_file_exists (Some [(''theme_id'', JNull)]) =
     Inr (FromTemplate ''/app/ppt_templates/ppt1.pptx'')"
    by (simp add: every_file_exists_def path_join_def)
  from C10_theme_fallback[of _ _ _ "''/app/ppt_templates''" every_file_exists
      "[(''theme_id'', JStr ''ppt3'')]" "''ppt3''"] b
  have 2: "choose_template ''/app/ppt_templates'' every_file_exists
      (Some [(''theme_id'', JStr ''ppt3'')]) = Inr (FromTemplate ''/app/ppt_templates/ppt3.pptx'')"
    by (simp add: every_file_exists_def path_join_def)
  from C10_theme_fallback[of _ _ _ "''/app/ppt_templates''" every_file_exists
      "[(''theme_id'', JStr ''dark'')]" "''dark''"] c
  have 3: "choose_template ''/app/ppt_templates'' every_file_exists
      (Some [(''theme_id'', JStr ''dark'')]) = Inr BlankDefault"
    by blast
  from 1 2 3 show ?thesis by blast
qed

text \<open>
  Claim C10 as stated fails for an unknown identifier: with every template file present,
  \<open>theme_id = "dark"\<close> does not select the \<open>ppt1\<close> template.
\<close>

theorem C10_unknown_theme_counterexample:
  "''dark'' \<notin> set (map fst (TEMPLATE_MAP ''/app/ppt_templates'')) \<and>
   every_file_exists (path_join ''/app/ppt_templates'' ''ppt1.pptx'') \<and>
   choose_template ''/app/ppt_templates'' every_file_exists (Some [(''theme_id'', JStr ''dark'')])
     \<noteq> Inr (FromTemplate (path_join ''/app/ppt_templates'' ''ppt1.pptx''))"
  by (simp add: TEMPLATE_MAP_def every_file_exists_def choose_template_def dict_get_def
      py_or_def Let_def)

section \<open>Claims on the slide normalizer\<close>

lemma ensure_image_fields_length:
  "ensure_image_fields topic idx xs = Inr ys \<Longrightarrow> length ys = length xs"
  by (induction xs arbitrary: idx ys) (auto split: sum.splits slide.splits if_splits)

lemma fit_slide_count_length:
  "0 \<le> n \<Longrightarrow> length (fit_slide_count xs n) = nat n"
  by (auto simp: fit_slide_count_def py_prefix_def)

lemma fit_slide_count_cases:
  "0 \<le> n \<Longrightarrow> fit_slide_count xs n =
     (if length xs < nat n
      then xs @ map (\<lambda>i. TitleSlide (JStr (''Slide '' @ str_of_nat (i + 1)))) [length xs..<nat n]
      else take (nat n) xs)"
  by (auto simp: fit_slide_count_def py_prefix_def)

lemma normalize_slides_length:
  "normalize_slides py_str data n topic = Inr slides \<Longrightarrow> 0 \<le> n \<Longrightarrow> length slides = nat n"
  by (auto simp: normalize_slides_def Let_def fit_slide_count_length
      dest!: ensure_image_fields_length split: json.splits sum.splits)

lemma normalize_slides_empty_5:
  "normalize_slides py_str (JList []) 5 topic =
     Inr [TitleSlide (JStr ''Slide 1''), TitleSlide (JStr ''Slide 2''), TitleSlide (JStr ''Slide 3''),
          TitleSlide (JStr ''Slide 4''), TitleSlide (JStr ''Slide 5'')]"
proof -
  have "fit_slide_count [] 5 =
     [TitleSlide (JStr ''Slide 1''), TitleSlide (JStr ''Slide 2''), TitleSlide (JStr ''Slide 3''),
      TitleSlide (JStr ''Slide 4''), TitleSlide (JStr ''Slide 5'')]"
    by code_simp
  then show ?thesis
    by (simp add: normalize_slides_def Let_def List.map_filter_simps)
qed

text \<open>
  Claim C4 (exactly \<open>N\<close> slides for every raw slide list). Padding and truncation fit the
  count to \<open>N\<close> (\<open>fit_slide_count_cases\<close>, \<open>normalize_slides_length\<close>,
  \<open>normalize_slides_empty_5\<close>), but only when the last pass returns. For an image slide
  without caption whose title is a number, \<open>title[:120]\<close> raises \<open>TypeError\<close>, the function
  raises \<open>RuntimeError\<close> and no slide sequence is returned.
\<close>

theorem C4_non_string_title_raises:
  "normalize_slides py_str (JList [JDict [(''layout'', JStr ''image''), (''title'', JInt 5)]]) 1 topic
     = Inl RuntimeError"
  by (simp add: normalize_slides_def Let_def fit_slide_count_def List.map_filter_simps
      map_slide_def dict_get_def py_or_def)





theorem C4_non_string_title_raises_witness:
  "normalize_slides py_str_scalar
     (JList [JDict [(''layout'', JStr ''image''), (''title'', JInt 5)]]) 1 ''AI'' = Inl RuntimeError"
  using C4_non_string_title_raises[of py_str_scalar "''AI''"] by simp




section \<open>Lemmas on the string primitives\<close>

subsection \<open>strip\<close>

lemma rstrip_append_nonspace:
  "\<not> is_space c \<Longrightarrow> rstrip (s @ [c]) = s @ [c]"
  by (simp add: rstrip_def)

lemma strip_eq_Nil: "strip s = [] \<longleftrightarrow> (\<forall>c \<in> set s. is_space c)"
proof -
  have "strip s = [] \<longleftrightarrow> dropWhile is_space (rev (dropWhile is_space s)) = []"
    by (simp add: strip_def rstrip_def lstrip_def)
  also have "\<dots> \<longleftrightarrow> (\<forall>c \<in> set (dropWhile is_space s). is_space c)"
    by (simp add: dropWhile_eq_Nil_conv)
  also have "\<dots> \<longleftrightarrow> (\<forall>c \<in> set s. is_space c)"
  proof
    assume a: "\<forall>c \<in> set (dropWhile is_space s). is_space c"
    have "dropWhile is_space s = []"
    proof (rule ccontr)
      assume "dropWhile is_space s \<noteq> []"
      then have "\<not> is_space (hd (dropWhile is_space s))" by (rule hd_dropWhile)
      moreover have "hd (dropWhile is_space s) \<in> set (dropWhile is_space s)"
        using \<open>dropWhile is_space s \<noteq> []\<close> by simp
      ultimately show False using a by blast
    qed
    then show "\<forall>c \<in> set s. is_space c" by (simp add: dropWhile_eq_Nil_conv)
  next
    assume "\<forall>c \<in> set s. is_space c"
    then show "\<forall>c \<in> set (dropWhile is_space s). is_space c"
      using set_dropWhileD by fastforce
  qed
  finally show ?thesis .
qed

lemma strip_fixed:
  "s = [] \<or> (\<not> is_space (hd s) \<and> \<not> is_space (last s)) \<Longrightarrow> strip s = s"
proof (cases s)
  case Nil
  then show ?thesis by simp
next
  case (Cons c cs)
  assume "s = [] \<or> (\<not> is_space (hd s) \<and> \<not> is_space (last s))"
  with Cons have h: "\<not> is_space c" "\<not> is_space (last (c # cs))" by auto
  have "lstrip s = s" using Cons h by (simp add: lstrip_def)
  moreover have "rstrip s = s"
  proof -
    have "rev s \<noteq> []" using Cons by simp
    moreover have "hd (rev s) = last s" using Cons by (simp add: hd_rev)
    ultimately have "dropWhile is_space (rev s) = rev s"
      using h Cons by (cases "rev s") auto
    then show ?thesis by (simp add: rstrip_def)
  qed
  ultimately show ?thesis by (simp add: strip_def)
qed

lemma strip_ends:
  assumes "strip s \<noteq> []"
  shows "\<not> is_space (hd (strip s)) \<and> \<not> is_space (last (strip s))"
proof -
  let ?d = "dropWhile is_space s"
  let ?e = "dropWhile is_space (rev ?d)"
  have s: "strip s = rev ?e" by (simp add: strip_def rstrip_def lstrip_def)
  with assms have e: "?e \<noteq> []" by simp
  then have l: "\<not> is_space (hd ?e)" by (rule hd_dropWhile)
  have d: "?d \<noteq> []"
  proof
    assume "?d = []"
    then have "?e = []" by (metis dropWhile.simps(1) rev.simps(1))
    with e show False by blast
  qed
  then have hd: "\<not> is_space (hd ?d)" by (rule hd_dropWhile)
  have "rev ?d = takeWhile is_space (rev ?d) @ ?e" by simp
  then have "?d = rev ?e @ rev (takeWhile is_space (rev ?d))"
    by (metis rev_append rev_rev_ident)
  then have "hd ?d = hd (rev ?e)" using e by (metis hd_append2 rev_is_Nil_conv)
  with hd l e show ?thesis unfolding s by (simp add: last_rev)
qed

lemma strip_strip [simp]: "strip (strip s) = strip s"
  using strip_ends[of s] by (intro strip_fixed) auto

lemma strip_sublist: "sublist (strip s) s"
proof -
  let ?d = "dropWhile is_space s"
  have 1: "s = takeWhile is_space s @ ?d" by simp
  have 2: "?d = strip s @ rev (takeWhile is_space (rev ?d))"
  proof -
    have "rev ?d = takeWhile is_space (rev ?d) @ dropWhile is_space (rev ?d)" by simp
    then have "?d = rev (dropWhile is_space (rev ?d)) @ rev (takeWhile is_space (rev ?d))"
      by (metis rev_append rev_rev_ident)
    then show ?thesis by (simp add: strip_def rstrip_def lstrip_def)
  qed
  show ?thesis unfolding sublist_def using 1 2 by metis
qed

lemma set_strip: "set (strip s) \<subseteq> set s"
  using strip_sublist[of s] by (rule set_mono_sublist)

subsection \<open>replace\<close>

lemma replace_Nil [simp]: "replace old new [] = []"
  by (simp add: replace.simps)

lemma replace_Cons_hit:
  "old \<noteq> [] \<Longrightarrow> prefix old (c # cs) \<Longrightarrow>
   replace old new (c # cs) = new @ replace old new (drop (length old) (c # cs))"
  by (subst replace.simps) simp

lemma replace_Cons_miss:
  "\<not> prefix old (c # cs) \<Longrightarrow> replace old new (c # cs) = c # replace old new cs"
  by (subst replace.simps) auto

lemma replace_absent:
  "old \<noteq> [] \<Longrightarrow> hd old \<notin> set s \<Longrightarrow> replace old new s = s"
proof (induction s)
  case Nil
  then show ?case by simp
next
  case (Cons c cs)
  then have "\<not> prefix old (c # cs)" by (cases old) auto
  with Cons show ?case by (simp add: replace_Cons_miss)
qed

lemma set_replace: "set (replace old new s) \<subseteq> set s \<union> set new"
proof (induction old new s rule: replace.induct)
  case (1 old new s)
  show ?case
  proof (cases "old = [] \<or> s = []")
    case True
    then show ?thesis by (subst replace.simps) auto
  next
    case False
    then obtain c cs where s: "s = c # cs" by (cases s) auto
    show ?thesis
    proof (cases "prefix old s")
      case True
      have "set (drop (length old) s) \<subseteq> set s" by (rule set_drop_subset)
      with 1(1)[OF False True] show ?thesis
        using False True unfolding s by (subst replace_Cons_hit) auto
    next
      case np: False
      with 1(2)[OF False np] show ?thesis
        unfolding s by (subst replace_Cons_miss) auto
    qed
  qed
qed

lemma replace_single_absent: "a \<notin> set new \<Longrightarrow> a \<notin> set (replace [a] new s)"
proof (induction s)
  case Nil
  then show ?case by simp
next
  case (Cons c cs)
  show ?case
  proof (cases "c = a")
    case True
    then have "replace [a] new (c # cs) = new @ replace [a] new cs"
      by (subst replace_Cons_hit) auto
    with Cons show ?thesis by simp
  next
    case False
    then have "replace [a] new (c # cs) = c # replace [a] new cs"
      by (subst replace_Cons_miss) auto
    with Cons False show ?thesis by simp
  qed
qed

lemma has_escape_Cons:
  "has_escape (c # cs) \<longleftrightarrow> (c = BSL \<and> cs \<noteq> [] \<and> hd cs = CHR ''n'') \<or> has_escape cs"
  by (cases cs) auto

lemma has_escape_append:
  "has_escape (a @ b) \<longleftrightarrow>
     has_escape a \<or> has_escape b \<or> (a \<noteq> [] \<and> b \<noteq> [] \<and> last a = BSL \<and> hd b = CHR ''n'')"
proof (induction a)
  case Nil
  then show ?case by simp
next
  case (Cons c cs)
  show ?case
  proof (cases cs)
    case Nil
    then show ?thesis by (cases b) auto
  next
    case (Cons d ds)
    with Cons.IH show ?thesis by auto
  qed
qed

lemma has_escape_sublist: "sublist x s \<Longrightarrow> has_escape x \<Longrightarrow> has_escape s"
  by (auto simp: sublist_def has_escape_append)

lemma replace_no_escape:
  "\<not> has_escape s \<Longrightarrow> replace [BSL, CHR ''n''] new s = s"
proof (induction s)
  case Nil
  then show ?case by simp
next
  case (Cons c cs)
  then have "\<not> prefix [BSL, CHR ''n''] (c # cs)" by (cases cs) auto
  moreover have "\<not> has_escape cs" using Cons.prems by (simp add: has_escape_Cons)
  ultimately show ?case using Cons.IH by (simp add: replace_Cons_miss)
qed

lemma hd_replace_escape:
  assumes "replace [BSL, CHR ''n''] [NL] s \<noteq> []"
    and h: "hd (replace [BSL, CHR ''n''] [NL] s) = CHR ''n''"
  shows "s \<noteq> [] \<and> hd s = CHR ''n''"
proof (cases s)
  case Nil
  with assms(1) show ?thesis by simp
next
  case (Cons c cs)
  show ?thesis
  proof (cases "prefix [BSL, CHR ''n''] s")
    case True
    then have "replace [BSL, CHR ''n''] [NL] s = [NL] @ replace [BSL, CHR ''n''] [NL] (drop 2 s)"
      unfolding Cons by (subst replace_Cons_hit) auto
    with h show ?thesis by simp
  next
    case False
    then have "replace [BSL, CHR ''n''] [NL] s = c # replace [BSL, CHR ''n''] [NL] cs"
      unfolding Cons by (rule replace_Cons_miss)
    with h Cons show ?thesis by simp
  qed
qed

lemma no_escape_after_replace: "\<not> has_escape (replace [BSL, CHR ''n''] [NL] s)"
proof (induction "length s" arbitrary: s rule: less_induct)
  case less
  show ?case
  proof (cases s)
    case Nil
    then show ?thesis by simp
  next
    case (Cons c cs)
    show ?thesis
    proof (cases "prefix [BSL, CHR ''n''] s")
      case True
      then have e: "replace [BSL, CHR ''n''] [NL] s = NL # replace [BSL, CHR ''n''] [NL] (drop 2 s)"
        unfolding Cons by (subst replace_Cons_hit) auto
      have "length (drop 2 s) < length s" using Cons by simp
      from less[OF this] show ?thesis unfolding e by (simp add: has_escape_Cons)
    next
      case False
      then have e: "replace [BSL, CHR ''n''] [NL] s = c # replace [BSL, CHR ''n''] [NL] cs"
        unfolding Cons by (rule replace_Cons_miss)
      have ih: "\<not> has_escape (replace [BSL, CHR ''n''] [NL] cs)"
        using less[of cs] Cons by simp
      have "\<not> (c = BSL \<and> replace [BSL, CHR ''n''] [NL] cs \<noteq> [] \<and>
                hd (replace [BSL, CHR ''n''] [NL] cs) = CHR ''n'')"
      proof
        assume a: "c = BSL \<and> replace [BSL, CHR ''n''] [NL] cs \<noteq> [] \<and>
                hd (replace [BSL, CHR ''n''] [NL] cs) = CHR ''n''"
        then have "cs \<noteq> [] \<and> hd cs = CHR ''n''" using hd_replace_escape by blast
        with a have "prefix [BSL, CHR ''n''] s" unfolding Cons by (cases cs) auto
        with False show False by simp
      qed
      with ih show ?thesis unfolding e by (simp add: has_escape_Cons)
    qed
  qed
qed

subsection \<open>The newline normalization\<close>

lemma normalise_newlines_no_CR: "CR \<notin> set (normalise_newlines raw)"
proof -
  have "CR \<notin> set (replace [CR] [NL] (replace [CR, NL] [NL] raw))"
    by (rule replace_single_absent) simp
  then show ?thesis
    unfolding normalise_newlines_def using set_replace[of "[BSL, CHR ''n'']" "[NL]"] by fastforce
qed

lemma normalise_newlines_no_escape: "\<not> has_escape (normalise_newlines raw)"
  unfolding normalise_newlines_def by (rule no_escape_after_replace)

lemma normalise_newlines_fixed:
  "CR \<notin> set s \<Longrightarrow> \<not> has_escape s \<Longrightarrow> normalise_newlines s = s"
  by (simp add: normalise_newlines_def replace_absent replace_no_escape)

subsection \<open>split and join\<close>

lemma split_on_not_Nil [simp]: "split_on sep s \<noteq> []"
  by (induction s) (auto split: list.splits)

lemma split_on_Cons_other:
  "c \<noteq> sep \<Longrightarrow> split_on sep (c # cs) = (c # hd (split_on sep cs)) # tl (split_on sep cs)"
  by (cases "split_on sep cs") auto

lemma join_Cons: "ls \<noteq> [] \<Longrightarrow> join sep (l # ls) = l @ sep @ join sep ls"
  by (cases ls) auto

lemma join_split_on: "join [sep] (split_on sep s) = s"
proof (induction s)
  case Nil
  then show ?case by simp
next
  case (Cons c cs)
  show ?case
  proof (cases "c = sep")
    case True
    with Cons show ?thesis by (simp add: join_Cons)
  next
    case False
    obtain l ls where sp: "split_on sep cs = l # ls" by (cases "split_on sep cs") auto
    with Cons have "join [sep] (l # ls) = cs" by simp
    then have "join [sep] ((c # l) # ls) = c # cs" by (cases ls) auto
    with False sp show ?thesis by simp
  qed
qed

lemma split_on_no_sep: "l \<in> set (split_on sep s) \<Longrightarrow> sep \<notin> set l"
proof (induction s arbitrary: l)
  case Nil
  then show ?case by simp
next
  case (Cons c cs)
  show ?case
  proof (cases "c = sep")
    case True
    with Cons show ?thesis by auto
  next
    case False
    obtain x xs where sp: "split_on sep cs = x # xs" by (cases "split_on sep cs") auto
    with Cons.prems False have "l = c # x \<or> l \<in> set xs" by simp
    then show ?thesis using Cons.IH[of x] Cons.IH[of l] sp False by auto
  qed
qed


lemma split_on_no_sep_id: "sep \<notin> set a \<Longrightarrow> split_on sep a = [a]"
  by (induction a) auto


lemma split_on_sublist: "l \<in> set (split_on sep s) \<Longrightarrow> sublist l s"
proof (induction s arbitrary: l)
  case Nil
  then show ?case by simp
next
  case (Cons c cs)
  show ?case
  proof (cases "c = sep")
    case True
    with Cons.prems have "l = [] \<or> l \<in> set (split_on sep cs)" by simp
    then show ?thesis using Cons.IH by (auto simp: sublist_Cons_right)
  next
    case False
    obtain x xs where sp: "split_on sep cs = x # xs" by (cases "split_on sep cs") auto
    with Cons.prems False have "l = c # x \<or> l \<in> set xs" by simp
    then show ?thesis
    proof
      assume l: "l = c # x"
      have "join [sep] (x # xs) = cs" using join_split_on[of sep cs] sp by simp
      then have "prefix x cs" by (cases xs) auto
      then have "prefix (c # x) (c # cs)" by simp
      then show ?thesis unfolding l by (rule prefix_imp_sublist)
    next
      assume "l \<in> set xs"
      then show ?thesis using Cons.IH[of l] sp by (auto simp: sublist_Cons_right)
    qed
  qed
qed



section \<open>The normal form of the text normalizer\<close>

lemma line_ok_Nil [simp]: "line_ok []"
  by (simp add: line_ok_def)

lemma raw_lines_ok: "l \<in> set (raw_lines raw) \<Longrightarrow> line_ok l"
proof -
  assume "l \<in> set (raw_lines raw)"
  then obtain x where x: "x \<in> set (split_on NL (normalise_newlines raw))" and l: "l = strip x"
    by (auto simp: raw_lines_def)
  have sub: "sublist l (normalise_newlines raw)"
    using strip_sublist[of x] split_on_sublist[OF x] unfolding l by (rule sublist_order.order_trans)
  have "NL \<notin> set x" using x by (rule split_on_no_sep)
  then have "NL \<notin> set l" using set_strip[of x] l by auto
  moreover have "CR \<notin> set l"
    using set_mono_sublist[OF sub] normalise_newlines_no_CR[of raw] by auto
  moreover have "\<not> has_escape l"
    using has_escape_sublist[OF sub] normalise_newlines_no_escape[of raw] by auto
  ultimately show ?thesis by (simp add: line_ok_def l)
qed

subsection \<open>The meta-line loop\<close>

lemma strip_meta_lines_subset:
  "set (strip_meta_lines dtl hl ls) \<subseteq> set ls"
  by (induction ls) (auto simp: Let_def)


lemma strip_meta_lines_head:
  assumes "strip_meta_lines dtl hl ls = r # rs"
  shows "strip r \<noteq> [] \<and> (is_meta_line dtl hl (lower (strip r)) \<longrightarrow> (\<forall>x \<in> set rs. strip x = []))"
  using assms
proof (induction ls)
  case Nil
  then show ?case by simp
next
  case (Cons l ls)
  then show ?case by (auto simp: Let_def split: if_splits)
qed

lemma strip_meta_lines_fixed:
  assumes "strip r \<noteq> []"
    and "is_meta_line dtl hl (lower (strip r)) \<longrightarrow> (\<forall>x \<in> set rs. strip x = [])"
  shows "strip_meta_lines dtl hl (r # rs) = r # rs"
  using assms by (auto simp: Let_def)

subsection \<open>Blank lines\<close>

lemma collapse_blank_eq:
  "collapse_blank acc ls = acc @ collapse_from (acc \<noteq> [] \<and> last acc = []) ls"
  by (induction ls arbitrary: acc) auto

lemma collapse_blank_Nil: "collapse_blank [] ls = collapse_from False ls"
  by (simp add: collapse_blank_eq)

lemma set_collapse_from: "set (collapse_from b ls) \<subseteq> set ls"
  by (induction ls arbitrary: b) auto

lemma spaced_collapse_from: "spaced b (collapse_from b ls)"
  by (induction ls arbitrary: b) auto


lemma spaced_dropWhile: "spaced b ls \<Longrightarrow> spaced b' (dropWhile (\<lambda>l. l = []) ls)"
proof (induction ls arbitrary: b b')
  case Nil
  then show ?case by simp
next
  case (Cons l ls)
  then show ?case by (cases "l = []") auto
qed

lemma spaced_prefix: "spaced b (xs @ ys) \<Longrightarrow> spaced b xs"
  by (induction xs arbitrary: b) (auto split: if_splits)

lemma trim_blank_prefix: "\<exists>zs. xs = rev (dropWhile P (rev xs)) @ zs"
proof -
  have "rev xs = takeWhile P (rev xs) @ dropWhile P (rev xs)" by simp
  then have "xs = rev (dropWhile P (rev xs)) @ rev (takeWhile P (rev xs))"
    by (metis rev_append rev_rev_ident)
  then show ?thesis by blast
qed

lemma spaced_trim_blank: "spaced b ls \<Longrightarrow> spaced b (trim_blank ls)"
proof -
  assume "spaced b ls"
  then have s: "spaced b (dropWhile (\<lambda>l. l = []) ls)" by (rule spaced_dropWhile)
  obtain zs where "dropWhile (\<lambda>l. l = []) ls = trim_blank ls @ zs"
    unfolding trim_blank_def using trim_blank_prefix by blast
  with s show ?thesis by (metis spaced_prefix)
qed

lemma set_trim_blank: "set (trim_blank ls) \<subseteq> set ls"
proof -
  have "set (trim_blank ls) \<subseteq> set (dropWhile (\<lambda>l. l = []) ls)"
    unfolding trim_blank_def using set_dropWhileD by fastforce
  also have "\<dots> \<subseteq> set ls" using set_dropWhileD by fastforce
  finally show ?thesis .
qed

lemma trim_blank_ends:
  "trim_blank ls = [] \<or> (hd (trim_blank ls) \<noteq> [] \<and> last (trim_blank ls) \<noteq> [])"
proof (cases "trim_blank ls = []")
  case True
  then show ?thesis by simp
next
  case False
  let ?d = "dropWhile (\<lambda>l. l = []) ls"
  let ?e = "dropWhile (\<lambda>l. l = []) (rev ?d)"
  have t: "trim_blank ls = rev ?e" by (simp add: trim_blank_def)
  with False have e: "?e \<noteq> []" by simp
  then have l: "hd ?e \<noteq> []" using hd_dropWhile[of "\<lambda>l. l = []" "rev ?d"] by blast
  have d: "?d \<noteq> []"
  proof
    assume "?d = []"
    then have "?e = []" by (metis dropWhile.simps(1) rev.simps(1))
    with e show False by blast
  qed
  then have hd: "hd ?d \<noteq> []" using hd_dropWhile[of "\<lambda>l. l = []" ls] by blast
  obtain zs where "?d = rev ?e @ zs" using trim_blank_prefix by blast
  then have "hd ?d = hd (rev ?e)" using e by (metis hd_append2 rev_is_Nil_conv)
  with hd l e show ?thesis unfolding t by (simp add: last_rev)
qed


lemma trim_blank_Cons:
  assumes "h \<noteq> []"
  shows "\<exists>xs'. trim_blank (h # xs) = h # xs' \<and> set xs' \<subseteq> set xs"
proof -
  have "dropWhile (\<lambda>l. l = []) (rev xs @ [h]) = dropWhile (\<lambda>l. l = []) (rev xs) @ [h]"
    using assms by (auto simp: dropWhile_append)
  then have "trim_blank (h # xs) = h # rev (dropWhile (\<lambda>l. l = []) (rev xs))"
    using assms by (simp add: trim_blank_def)
  moreover have "set (rev (dropWhile (\<lambda>l. l = []) (rev xs))) \<subseteq> set xs"
    using set_dropWhileD by fastforce
  ultimately show ?thesis by blast
qed

lemma hd_join: "ls \<noteq> [] \<Longrightarrow> hd ls \<noteq> [] \<Longrightarrow> hd (join sep ls) = hd (hd ls)"
proof (cases ls)
  case Nil
  assume "ls \<noteq> []"
  with Nil show ?thesis by simp
next
  case (Cons l rest)
  assume "hd ls \<noteq> []"
  with Cons show ?thesis by (cases "rest = []") (simp_all add: join_Cons)
qed

lemma last_join: "ls \<noteq> [] \<Longrightarrow> last ls \<noteq> [] \<Longrightarrow> last (join sep ls) = last (last ls)"
proof (induction ls)
  case Nil
  then show ?case by simp
next
  case (Cons l ls)
  show ?case
  proof (cases "ls = []")
    case True
    then show ?thesis by simp
  next
    case False
    with Cons have "last (join sep ls) = last (last ls)" "last ls \<noteq> []" by auto
    moreover have "join sep ls \<noteq> []" using False \<open>last ls \<noteq> []\<close>
      by (induction ls) (auto simp: join_Cons split: if_splits)
    ultimately show ?thesis using False by (simp add: join_Cons)
  qed
qed

lemma join_eq_Nil: "join sep ls = [] \<Longrightarrow> ls \<noteq> [] \<Longrightarrow> hd ls = []"
proof (cases ls)
  case Nil
  assume "ls \<noteq> []"
  with Nil show ?thesis by simp
next
  case (Cons l rest)
  assume "join sep ls = []"
  with Cons show ?thesis by (cases "rest = []") (simp_all add: join_Cons)
qed

lemma strip_join_clean:
  assumes "\<forall>l \<in> set ls. strip l = l" "ls = [] \<or> (hd ls \<noteq> [] \<and> last ls \<noteq> [])"
  shows "strip (join [NL] ls) = join [NL] ls"
proof (cases "ls = []")
  case True
  then show ?thesis by simp
next
  case False
  with assms(2) have h: "hd ls \<noteq> []" "last ls \<noteq> []" by auto
  have "strip (hd ls) = hd ls" "strip (last ls) = last ls" using assms(1) False by auto
  then have "\<not> is_space (hd (hd ls))" "\<not> is_space (last (last ls))"
    using strip_ends[of "hd ls"] strip_ends[of "last ls"] h by auto
  then have "\<not> is_space (hd (join [NL] ls)) \<and> \<not> is_space (last (join [NL] ls))"
    using hd_join[OF False h(1)] last_join[OF False h(2)] by simp
  then show ?thesis by (intro strip_fixed) simp
qed

lemma cleaned_lines_form:
  "clean_form (lower (strip dt)) (lower (strip h)) (cleaned_lines dt h raw)"
proof -
  let ?dtl = "lower (strip dt)" and ?hl = "lower (strip h)"
  let ?R = "strip_meta_lines ?dtl ?hl (raw_lines raw)"
  let ?T = "cleaned_lines dt h raw"
  have T: "?T = trim_blank (collapse_from False ?R)"
    by (simp add: cleaned_lines_def collapse_blank_Nil)
  have okR: "\<forall>l \<in> set ?R. line_ok l"
    using strip_meta_lines_subset raw_lines_ok by blast
  have "set ?T \<subseteq> set ?R"
    unfolding T using set_trim_blank set_collapse_from by fastforce
  then have 1: "\<forall>l \<in> set ?T. line_ok l" using okR by blast
  have 2: "?T = [] \<or> (hd ?T \<noteq> [] \<and> last ?T \<noteq> [])"
    unfolding T by (rule trim_blank_ends)
  have 3: "spaced False ?T"
    unfolding T by (intro spaced_trim_blank spaced_collapse_from)
  have 4: "is_meta_line ?dtl ?hl (lower (hd ?T)) \<longrightarrow> (\<forall>x \<in> set (tl ?T). x = [])" if "?T \<noteq> []"
  proof (cases ?R)
    case Nil
    with that show ?thesis by (simp add: T trim_blank_def)
  next
    case (Cons r rs)
    have r1: "strip r \<noteq> []"
      using strip_meta_lines_head[OF Cons] by (rule conjunct1)
    have r2: "is_meta_line ?dtl ?hl (lower (strip r)) \<longrightarrow> (\<forall>x \<in> set rs. strip x = [])"
      using strip_meta_lines_head[OF Cons] by (rule conjunct2)
    have "r \<in> set ?R" unfolding Cons by simp
    with okR have "line_ok r" by blast
    then have sr: "strip r = r" by (simp add: line_ok_def)
    with r1 have rne: "r \<noteq> []" by simp
    then have cf: "collapse_from False (r # rs) = r # collapse_from False rs" by simp
    obtain xs' where x: "trim_blank (r # collapse_from False rs) = r # xs'"
      "set xs' \<subseteq> set (collapse_from False rs)"
      using trim_blank_Cons[OF rne, of "collapse_from False rs"] by blast
    have Tx: "?T = r # xs'" unfolding T Cons cf x(1) ..
    have sub: "set xs' \<subseteq> set rs" using x(2) set_collapse_from[of False rs] by blast
    have rs_ok: "\<forall>x \<in> set rs. strip x = x"
    proof
      fix y assume "y \<in> set rs"
      then have "y \<in> set ?R" unfolding Cons by simp
      with okR have "line_ok y" by blast
      then show "strip y = y" by (simp add: line_ok_def)
    qed
    show ?thesis
    proof
      assume "is_meta_line ?dtl ?hl (lower (hd ?T))"
      then have "is_meta_line ?dtl ?hl (lower (strip r))" unfolding Tx using sr by simp
      with r2 have "\<forall>x \<in> set rs. strip x = []" by blast
      with rs_ok have "\<forall>x \<in> set rs. x = []" by metis
      with sub show "\<forall>x \<in> set (tl ?T). x = []" unfolding Tx by auto
    qed
  qed
  show ?thesis unfolding clean_form_def using 1 2 3 4 by blast
qed

lemma clean_eq_join: "clean_section_content dt h raw = join [NL] (cleaned_lines dt h raw)"
proof (cases "raw = []")
  case True
  have "raw_lines [] = [[]]" by (simp add: raw_lines_def normalise_newlines_def)
  then have "cleaned_lines dt h [] = []"
    by (simp add: cleaned_lines_def Let_def trim_blank_def)
  with True show ?thesis by (simp add: clean_section_content_def)
next
  case False
  have f: "clean_form (lower (strip dt)) (lower (strip h)) (cleaned_lines dt h raw)"
    by (rule cleaned_lines_form)
  have "strip (join [NL] (cleaned_lines dt h raw)) = join [NL] (cleaned_lines dt h raw)"
    using f by (intro strip_join_clean) (auto simp: clean_form_def line_ok_def)
  with False show ?thesis
    by (simp add: clean_section_content_def Let_def cleaned_lines_def raw_lines_def)
qed





section \<open>Which leading lines the text normalizer drops\<close>





lemma raw_lines_single:
  assumes "NL \<notin> set l" "CR \<notin> set l" "\<not> has_escape l"
  shows "raw_lines l = [strip l]"
  using assms by (simp add: raw_lines_def normalise_newlines_fixed split_on_no_sep_id)



lemma trim_blank_all_blank:
  assumes "\<forall>x \<in> set ls. x = []"
  shows "trim_blank ls = []"
proof -
  have "dropWhile (\<lambda>l. l = []) ls = []"
    using assms by (intro dropWhile_eq_Nil_conv[THEN iffD2])
  then show ?thesis unfolding trim_blank_def by (metis dropWhile.simps(1) rev.simps(1))
qed

lemma trim_blank_Cons_eq:
  assumes "h \<noteq> []"
  shows "trim_blank (h # xs) = h # rev (dropWhile (\<lambda>l. l = []) (rev xs))"
proof -
  have "dropWhile (\<lambda>l. l = []) (rev xs @ [h]) = dropWhile (\<lambda>l. l = []) (rev xs) @ [h]"
    using assms by (auto simp: dropWhile_append)
  then show ?thesis using assms by (simp add: trim_blank_def)
qed






lemma clean_single_line:
  assumes "NL \<notin> set l" "CR \<notin> set l" "\<not> has_escape l"
  shows "clean_section_content dt h l = strip l"
proof (cases "strip l = []")
  case True
  then show ?thesis using assms
    by (simp add: clean_eq_join cleaned_lines_def raw_lines_single trim_blank_def)
next
  case False
  have "strip_meta_lines (lower (strip dt)) (lower (strip h)) [strip l] = [strip l]"
    using False by (intro strip_meta_lines_fixed) auto
  then show ?thesis using assms False
    by (simp add: clean_eq_join cleaned_lines_def raw_lines_single collapse_blank_Nil
        trim_blank_Cons_eq)
qed





section \<open>The words of a text and of its parts\<close>

lemma word_tokens_space:
  "is_space sp \<Longrightarrow> word_tokens w (a @ sp # b) = word_tokens w a @ word_tokens [] b"
  by (induction a arbitrary: w) auto

lemma word_tokens_all_space: "\<forall>c \<in> set b. is_space c \<Longrightarrow> word_tokens [] b = []"
  by (induction b) auto

lemma word_tokens_trailing:
  "\<forall>c \<in> set b. is_space c \<Longrightarrow> word_tokens w (a @ b) = word_tokens w a"
proof (cases b)
  case Nil
  then show ?thesis by simp
next
  case (Cons sp b')
  assume "\<forall>c \<in> set b. is_space c"
  with Cons show ?thesis by (simp add: word_tokens_space word_tokens_all_space)
qed

lemma word_tokens_leading: "word_tokens [] (dropWhile is_space s) = word_tokens [] s"
  by (induction s) auto

lemma py_words_Nil [simp]: "py_words [] = []"
  by (simp add: py_words_def)

lemma py_words_strip [simp]: "py_words (strip s) = py_words s"
proof -
  let ?d = "dropWhile is_space s"
  have "rev ?d = takeWhile is_space (rev ?d) @ dropWhile is_space (rev ?d)" by simp
  then have d: "?d = strip s @ rev (takeWhile is_space (rev ?d))"
    unfolding strip_def rstrip_def lstrip_def by (metis rev_append rev_rev_ident)
  have "\<forall>c \<in> set (rev (takeWhile is_space (rev ?d))). is_space c"
    using set_takeWhileD by fastforce
  then have "word_tokens [] (strip s @ rev (takeWhile is_space (rev ?d))) = word_tokens [] (strip s)"
    by (rule word_tokens_trailing)
  with d have "word_tokens [] ?d = word_tokens [] (strip s)" by simp
  then show ?thesis by (simp add: py_words_def word_tokens_leading)
qed




lemma is_space_CR [simp]: "is_space CR"
  by (simp add: is_space_def)

lemma is_space_blank [simp]: "is_space CHR '' ''"
  by (simp add: is_space_def)





















lemma slice_same [simp]: "slice xs i i = []"
  by (simp add: slice_def)


lemma split_sentences_from_not_Nil [simp]: "split_sentences_from b s \<noteq> []"
  by (induction b s rule: split_sentences_from.induct) (auto split: list.splits)
















end
